theory Spec2Isabelle
  imports Main "HOL-Library.Word" "HOL-Library.Sublist"
begin

unbundle bit_operations_syntax

section \<open>The data model of trie/stacktrie.go\<close>

type_synonym byte = "8 word"

text \<open>
  The constants of the \<^verbatim>\<open>iota\<close> block. The field \<^verbatim>\<open>typ\<close> is a \<^verbatim>\<open>uint8\<close> in the source,
  but only these five constants are ever stored in it, so the \<^verbatim>\<open>default\<close> arms of the
  two switches (\<^verbatim>\<open>panic("invalid type")\<close>, \<^verbatim>\<open>panic("Invalid node type")\<close>) have no
  value that reaches them and are not branches of the model.
\<close>

datatype nodeType = emptyNode | branchNode | extNode | leafNode | hashedNode

text \<open>
  \<^verbatim>\<open>stNode\<close>: the children array holds pointers, a nil pointer is \<open>None\<close>. The array has
  16 slots in Go; every node built by the functions below has a list of 16 slots, and an
  index is checked against the length of the list, where Go checks it against 16.
\<close>

datatype stNode = StNode (typ': nodeType) (key: "byte list") (val: "byte list")
  (children: "stNode option list")

text \<open>The ways the source stops abnormally: its three reachable \<^verbatim>\<open>panic\<close> calls and
  the run-time panics of Go on an index out of range and on a nil pointer.\<close>

datatype panic =
    DeletionNotSupported
  | InsertIntoExistingKey
  | InsertIntoHash
  | IndexOutOfRange
  | NilDereference

text \<open>What the trie does to the outside: calls of \<^verbatim>\<open>options.Writer(path, hash, blob)\<close>,
  of \<^verbatim>\<open>options.Cleaner(path)\<close>, of \<^verbatim>\<open>boundaryGauge.Inc(1)\<close> and of \<^verbatim>\<open>log.Error\<close>, in the
  order in which they happen.\<close>

datatype event =
    Write "byte list" "byte list" "byte list"
  | Clean "byte list"
  | GaugeInc
  | LogError

text \<open>\<^verbatim>\<open>StackTrieOptions\<close>: a callback or the gauge is modelled by whether it is
  configured (non-nil); what it is called with is in the event list.\<close>

record StackTrieOptions =
  Writer :: bool
  Cleaner :: bool
  SkipLeftBoundary :: bool
  SkipRightBoundary :: bool
  boundaryGauge :: bool

text \<open>The \<^verbatim>\<open>hasher\<close> held in the field \<^verbatim>\<open>h\<close>: \<^verbatim>\<open>hashData\<close> is Keccak-256, which is not
  code of this repository; it is a field of the model's hasher.\<close>

record hasher =
  hashData :: "byte list \<Rightarrow> byte list"

record StackTrie =
  options :: StackTrieOptions
  root :: stNode
  h :: hasher
  first :: "byte list option"
  last' :: "byte list option"

text \<open>A function of the source returns the state it has reached, the events it has
  caused, and whether it panicked; after a panic the state is the one the panic left.\<close>

type_synonym 'a outcome = "panic option \<times> 'a \<times> event list"

section \<open>Code of the repository outside the given sources\<close>

text \<open>Modelled from the spec: \<^verbatim>\<open>keybytesToHex\<close> (trie/encoding.go), two nibbles for
  each byte, the high one first, and the terminator 16 at the end.\<close>

fun keybytesToHex :: "byte list \<Rightarrow> byte list" where
  "keybytesToHex [] = [16]"
| "keybytesToHex (b # str) = (b div 16) # (b mod 16) # keybytesToHex str"

text \<open>Modelled from the spec: \<^verbatim>\<open>hexToCompactInPlace\<close> (trie/encoding.go), the hex-prefix
  encoding; the value is the compacted prefix \<^verbatim>\<open>hex[:sz]\<close> of the buffer.\<close>

fun packNibbles :: "byte list \<Rightarrow> byte list" where
  "packNibbles (a # b # hex) = (push_bit 4 a OR b) # packNibbles hex"
| "packNibbles hex = []"

definition hexToCompact :: "byte list \<Rightarrow> byte list" where
  "hexToCompact hex =
     (let terminated = (hex \<noteq> [] \<and> List.last hex = 16);
          nibbles = (if terminated then butlast hex else hex);
          leafFlag = (if terminated then 32 else 0 :: byte)
      in if odd (length nibbles)
         then (leafFlag OR 16 OR hd nibbles) # packNibbles (tl nibbles)
         else leafFlag # packNibbles nibbles)"

text \<open>Modelled from the spec: the node encoders \<^verbatim>\<open>shortNode.encode\<close> and
  \<^verbatim>\<open>fullNode.encode\<close> (trie/node\_enc.go) over the length-prefixed serializer (rlp):
  a short node is the list of the compact path and the child reference, a full node the
  list of its 16 child references and an empty 17th entry.\<close>

function bigEndian :: "nat \<Rightarrow> byte list" where
  "bigEndian n = (if n = 0 then [] else bigEndian (n div 256) @ [of_nat (n mod 256)])"
  by pat_completeness auto
termination
  by (relation "measure id") auto

definition rlpHeader :: "nat \<Rightarrow> nat \<Rightarrow> byte list" where
  "rlpHeader base n =
     (if n \<le> 55 then [of_nat (base + n)]
      else of_nat (base + 55 + length (bigEndian n)) # bigEndian n)"

definition rlpBytes :: "byte list \<Rightarrow> byte list" where
  "rlpBytes b = (if length b = 1 \<and> hd b < 128 then b else rlpHeader 128 (length b) @ b)"

definition rlpList :: "byte list \<Rightarrow> byte list" where
  "rlpList payload = rlpHeader 192 (length payload) @ payload"

text \<open>The child references a node is encoded from: \<^verbatim>\<open>rawNode\<close> is written as it is,
  \<^verbatim>\<open>hashNode\<close> and \<^verbatim>\<open>valueNode\<close> as byte strings.\<close>

datatype node = rawNode "byte list" | hashNode "byte list" | valueNode "byte list"

definition nilValueNode :: node where
  "nilValueNode = valueNode []"

fun encodeNode :: "node \<Rightarrow> byte list" where
  "encodeNode (rawNode b) = b"
| "encodeNode (hashNode b) = rlpBytes b"
| "encodeNode (valueNode b) = rlpBytes b"

definition encodeShort :: "byte list \<Rightarrow> node \<Rightarrow> byte list" where
  "encodeShort k v = rlpList (rlpBytes k @ encodeNode v)"

definition encodeFull :: "node list \<Rightarrow> byte list" where
  "encodeFull cs = rlpList (concat (map encodeNode cs) @ [128])"

text \<open>Modelled from the spec: the constant \<^verbatim>\<open>emptyRoot\<close> of the trie package, the
  canonical root of the empty trie.\<close>

definition emptyRoot :: "byte list" where
  "emptyRoot =
     [0x56, 0xe8, 0x1f, 0x17, 0x1b, 0xcc, 0x55, 0xa6, 0xff, 0x83, 0x45, 0xe6, 0x92, 0xc0, 0xf8, 0x6e,
      0x5b, 0x48, 0xe0, 0x1b, 0x99, 0x6c, 0xad, 0xc0, 0x01, 0x62, 0x2f, 0xb5, 0xe3, 0x63, 0xb4, 0x21]"

text \<open>\<^verbatim>\<open>common.BytesToHash\<close>: the last 32 bytes, padded with zeros on the left.\<close>

definition BytesToHash :: "byte list \<Rightarrow> byte list" where
  "BytesToHash b = replicate (32 - length b) 0 @ drop (length b - 32) b"

text \<open>\<^verbatim>\<open>bytes.HasPrefix(s, prefix)\<close>; a nil slice is the empty one.\<close>

definition HasPrefix :: "byte list \<Rightarrow> byte list \<Rightarrow> bool" where
  "HasPrefix s p = (length p \<le> length s \<and> take (length p) s = p)"

definition bytesOf :: "byte list option \<Rightarrow> byte list" where
  "bytesOf s = (case s of None \<Rightarrow> [] | Some b \<Rightarrow> b)"

text \<open>\<^verbatim>\<open>stPool.Get()\<close>: a node of the pool is a new one or one that \<^verbatim>\<open>reset\<close> has cleared.\<close>

definition poolGet :: stNode where
  "poolGet = StNode emptyNode [] [] (replicate 16 None)"

section \<open>The stack trie\<close>

definition NewStackTrieOptions :: StackTrieOptions where
  "NewStackTrieOptions =
     \<lparr>Writer = False, Cleaner = False, SkipLeftBoundary = False, SkipRightBoundary = False,
      boundaryGauge = False\<rparr>"

definition NewStackTrie :: "hasher \<Rightarrow> StackTrieOptions option \<Rightarrow> StackTrie" where
  "NewStackTrie newHasher opts =
     \<lparr>options = (case opts of None \<Rightarrow> NewStackTrieOptions | Some o' \<Rightarrow> o'),
      root = poolGet, h = newHasher, first = None, last' = None\<rparr>"

definition Reset :: "StackTrie \<Rightarrow> StackTrie" where
  "Reset t = t\<lparr>options := NewStackTrieOptions, root := poolGet, first := None, last' := None\<rparr>"

definition newLeaf :: "byte list \<Rightarrow> byte list \<Rightarrow> stNode" where
  "newLeaf k v = StNode leafNode k v (replicate 16 None)"

definition newExt :: "byte list \<Rightarrow> stNode option \<Rightarrow> stNode" where
  "newExt k child = StNode extNode k [] ((replicate 16 None)[0 := child])"

definition setChild :: "stNode \<Rightarrow> nat \<Rightarrow> stNode option \<Rightarrow> stNode" where
  "setChild st i c = StNode (typ' st) (key st) (val st) ((children st)[i := c])"

text \<open>\<^verbatim>\<open>getDiffIndex\<close>: \<open>None\<close> is the index-out-of-range panic of \<^verbatim>\<open>key[idx]\<close> on a key
  that ends before the node's chunk differs from it.\<close>

fun diffIndex :: "byte list \<Rightarrow> byte list \<Rightarrow> nat option" where
  "diffIndex [] k = Some 0"
| "diffIndex (nibble # ks) [] = None"
| "diffIndex (nibble # ks) (b # k) =
     (if nibble \<noteq> b then Some 0 else map_option Suc (diffIndex ks k))"

definition getDiffIndex :: "stNode \<Rightarrow> byte list \<Rightarrow> nat option" where
  "getDiffIndex n k = diffIndex (key n) k"

subsection \<open>hash\<close>

text \<open>The end of \<^verbatim>\<open>hash\<close>, from \<^verbatim>\<open>st.key = st.key[:0]\<close> on: the node becomes a hashed
  node that holds its blob or the digest of it, and a digest is handed to the sink.\<close>

definition finishHash ::
  "StackTrie \<Rightarrow> stNode \<Rightarrow> byte list \<Rightarrow> byte list \<Rightarrow> byte list list \<Rightarrow> stNode \<times> event list"
where
  "finishHash t st path blob internal =
     (if length blob < 32 \<and> length path > 0
      then (StNode hashedNode [] blob (children st), [])
      else
        let digest = hashData (h t) blob;
            st' = StNode hashedNode [] digest (children st)
        in if \<not> Writer (options t) then (st', [])
           else if SkipLeftBoundary (options t) \<and> HasPrefix (bytesOf (first t)) path
           then (st', if boundaryGauge (options t) then [GaugeInc] else [])
           else if SkipRightBoundary (options t) \<and> HasPrefix (bytesOf (last' t)) path
           then (st', if boundaryGauge (options t) then [GaugeInc] else [])
           else (st', map Clean internal @ [Write path (BytesToHash digest) blob]))"

definition childRef :: "stNode \<Rightarrow> node" where
  "childRef child = (if length (val child) < 32 then rawNode (val child) else hashNode (val child))"

definition internalPaths :: "StackTrie \<Rightarrow> stNode \<Rightarrow> byte list \<Rightarrow> byte list \<Rightarrow> byte list list"
where
  "internalPaths t child path k =
     (if length (val child) \<ge> 32 \<and> Cleaner (options t)
      then map (\<lambda>i. path @ take i k) [1..<length k] else [])"

text \<open>\<^verbatim>\<open>hash\<close> is the shortcut on a hashed node, the switch on the type of the node
  (\<open>hashSwitch\<close>: the node once its children are hashed and released, its blob, the
  internal paths of an extension node, and the events of the children) and the end of the
  function (\<open>finishHash\<close>). \<open>hashChildren\<close> is the loop of the branch case over the slots
  from \<open>i\<close> on. The empty node returns inside the switch. The last equation of
  \<open>hashSwitch\<close> is never used by \<open>hash\<close>.\<close>

function (sequential) hash :: "StackTrie \<Rightarrow> stNode \<Rightarrow> byte list \<Rightarrow> stNode outcome"
  and hashSwitch ::
    "StackTrie \<Rightarrow> stNode \<Rightarrow> byte list \<Rightarrow>
       panic option \<times> stNode \<times> byte list \<times> byte list list \<times> event list"
  and hashChildren ::
    "StackTrie \<Rightarrow> stNode option list \<Rightarrow> nat \<Rightarrow> byte list \<Rightarrow>
       panic option \<times> stNode option list \<times> node list \<times> event list"
where
  "hash t st path =
     (if typ' st = hashedNode then (None, st, [])
      else if typ' st = emptyNode then (None, StNode hashedNode [] emptyRoot (children st), [])
      else
        (case hashSwitch t st path of
           (Some e, st1, blob, internal, evs) \<Rightarrow> (Some e, st1, evs)
         | (None, st1, blob, internal, evs) \<Rightarrow>
             (case finishHash t st1 path blob internal of
                (st', evs') \<Rightarrow> (None, st', evs @ evs'))))"
| "hashSwitch t (StNode branchNode k v cs) path =
     (case hashChildren t cs 0 path of
        (e, cs', refs, evs) \<Rightarrow> (e, StNode branchNode k v cs', encodeFull refs, [], evs))"
| "hashSwitch t (StNode extNode k v []) path =
     (Some IndexOutOfRange, StNode extNode k v [], [], [], [])"
| "hashSwitch t (StNode extNode k v (None # cs)) path =
     (Some NilDereference, StNode extNode k v (None # cs), [], [], [])"
| "hashSwitch t (StNode extNode k v (Some child # cs)) path =
     (case hash t child (path @ k) of
        (Some e, child', evs) \<Rightarrow> (Some e, StNode extNode k v (Some child' # cs), [], [], evs)
      | (None, child', evs) \<Rightarrow>
          (None, StNode extNode k v (None # cs),
           encodeShort (hexToCompact k) (childRef child'),
           internalPaths t child' path k, evs))"
| "hashSwitch t (StNode leafNode k v cs) path =
     (None, StNode leafNode k v cs, encodeShort (hexToCompact (k @ [16])) (valueNode v), [], [])"
| "hashSwitch t (StNode ty k v cs) path = (None, StNode ty k v cs, [], [], [])"
| "hashChildren t [] i path = (None, [], [], [])"
| "hashChildren t (None # cs) i path =
     (case hashChildren t cs (Suc i) path of
        (e, cs', refs, evs) \<Rightarrow> (e, None # cs', nilValueNode # refs, evs))"
| "hashChildren t (Some child # cs) i path =
     (case hash t child (path @ [of_nat i]) of
        (Some e, child', evs) \<Rightarrow> (Some e, Some child' # cs, [], evs)
      | (None, child', evs) \<Rightarrow>
          (case hashChildren t cs (Suc i) path of
             (e, cs', refs, evs') \<Rightarrow> (e, None # cs', childRef child' # refs, evs @ evs')))"
  by pat_completeness auto
termination
  by (relation "measure (\<lambda>x. case x of
        Inl (t, st, path) \<Rightarrow> 2 * size st + 1
      | Inr (Inl (t, st, path)) \<Rightarrow> 2 * size st
      | Inr (Inr (t, cs, i, path)) \<Rightarrow> 2 * size_list (size_option size) cs + 1)") auto

declare hash.simps [simp del]

subsection \<open>insert\<close>

text \<open>The loop over the elder siblings of slot \<open>idx\<close>: the nearest child that is not nil,
  from \<open>idx - 1\<close> down to 0.\<close>

fun elderSibling :: "stNode option list \<Rightarrow> nat \<Rightarrow> (nat \<times> stNode) option" where
  "elderSibling cs 0 = None"
| "elderSibling cs (Suc i) =
     (case cs ! i of Some c \<Rightarrow> Some (i, c) | None \<Rightarrow> elderSibling cs i)"

definition hashElder :: "StackTrie \<Rightarrow> stNode \<Rightarrow> nat \<Rightarrow> byte list \<Rightarrow> stNode outcome" where
  "hashElder t st idx path =
     (if idx > length (children st) then (Some IndexOutOfRange, st, [])
      else case elderSibling (children st) idx of
             None \<Rightarrow> (None, st, [])
           | Some (i, c) \<Rightarrow>
               if typ' c \<noteq> hashedNode
               then (case hash t c (path @ [of_nat i]) of
                       (e, c', evs) \<Rightarrow> (e, setChild st i (Some c'), evs))
               else (None, st, []))"

text \<open>The node \<^verbatim>\<open>p\<close> that holds the two diverging children: the current node converted
  into a branch when the break is on the first nibble, a new branch node in slot 0
  otherwise; and the current node once \<^verbatim>\<open>p\<close> has got its children.\<close>

definition branchOf :: "stNode \<Rightarrow> nat \<Rightarrow> stNode" where
  "branchOf st diffidx =
     (if diffidx = 0 then StNode branchNode (key st) (val st) ((children st)[0 := None])
      else StNode branchNode (key poolGet) (val poolGet) (children poolGet))"

definition withBranch :: "stNode \<Rightarrow> nat \<Rightarrow> stNode \<Rightarrow> stNode" where
  "withBranch st diffidx p =
     (if diffidx = 0 then p
      else StNode extNode (key st) (val st) ((children st)[0 := Some p]))"

definition placeChildren ::
  "stNode \<Rightarrow> nat \<Rightarrow> stNode \<Rightarrow> nat \<Rightarrow> stNode \<Rightarrow> panic option \<times> stNode" where
  "placeChildren p origIdx n newIdx o' =
     (if origIdx \<ge> length (children p) then (Some IndexOutOfRange, p)
      else if newIdx \<ge> length (children p)
      then (Some IndexOutOfRange, setChild p origIdx (Some n))
      else (None, setChild (setChild p origIdx (Some n)) newIdx (Some o')))"

text \<open>The extension case when the chunks differ at \<open>diffidx < len(st.key)\<close>.\<close>

definition hashOriginal ::
  "StackTrie \<Rightarrow> stNode \<Rightarrow> nat \<Rightarrow> byte list \<Rightarrow> panic option \<times> stNode \<times> stNode \<times> event list"
where
  "hashOriginal t st diffidx path =
     (case children st of
        [] \<Rightarrow> (Some IndexOutOfRange, st, st, [])
      | child # cs \<Rightarrow>
          if diffidx < length (key st) - 1
          then (case hash t (newExt (drop (diffidx + 1) (key st)) child)
                       (path @ take (diffidx + 1) (key st)) of
                  (e, n, evs) \<Rightarrow> (e, setChild st 0 (hd (children n)), n, evs))
          else (case child of
                  None \<Rightarrow> (Some NilDereference, st, st, [])
                | Some c \<Rightarrow>
                    (case hash t c (path @ key st) of
                       (e, n, evs) \<Rightarrow> (e, setChild st 0 (Some n), n, evs))))"

definition splitExt ::
  "StackTrie \<Rightarrow> stNode \<Rightarrow> nat \<Rightarrow> byte list \<Rightarrow> byte list \<Rightarrow> byte list \<Rightarrow> stNode outcome"
where
  "splitExt t st diffidx k value' path =
     (case hashOriginal t st diffidx path of
        (Some e, st1, n, evs) \<Rightarrow> (Some e, st1, evs)
      | (None, st1, n, evs) \<Rightarrow>
          (case placeChildren (branchOf st diffidx) (unat (key st ! diffidx)) n
                  (unat (k ! diffidx)) (newLeaf (drop (diffidx + 1) k) value') of
             (Some e, p) \<Rightarrow> (Some e, withBranch st diffidx p, evs)
           | (None, p) \<Rightarrow>
               (case withBranch st diffidx p of
                  StNode ty k' v' cs' \<Rightarrow> (None, StNode ty (take diffidx k') v' cs', evs))))"

text \<open>The leaf case when the chunks differ at \<open>diffidx < len(st.key)\<close>.\<close>

definition splitLeaf ::
  "StackTrie \<Rightarrow> stNode \<Rightarrow> nat \<Rightarrow> byte list \<Rightarrow> byte list \<Rightarrow> byte list \<Rightarrow> stNode outcome"
where
  "splitLeaf t st diffidx k value' path =
     (let p = branchOf st diffidx; origIdx = unat (key st ! diffidx) in
      if origIdx \<ge> length (children p) then (Some IndexOutOfRange, withBranch st diffidx p, [])
      else
        (case hash t (newLeaf (drop (diffidx + 1) (key st)) (val st))
                (path @ take (diffidx + 1) (key st)) of
           (Some e, n, evs) \<Rightarrow>
             (Some e, withBranch st diffidx (setChild p origIdx (Some n)), evs)
         | (None, n, evs) \<Rightarrow>
             (case placeChildren p origIdx n (unat (k ! diffidx))
                     (newLeaf (drop (diffidx + 1) k) value') of
                (Some e, p') \<Rightarrow> (Some e, withBranch st diffidx p', evs)
              | (None, p') \<Rightarrow>
                  (case withBranch st diffidx p' of
                     StNode ty k' v' cs' \<Rightarrow> (None, StNode ty (take diffidx k') [] cs', evs)))))"

lemma size_child_nth:
  "i < length cs \<Longrightarrow> cs ! i = Some c \<Longrightarrow> size c < Suc (size_list (size_option size) cs)"
proof (induction cs arbitrary: i)
  case Nil
  then show ?case by simp
next
  case (Cons a cs)
  show ?case
  proof (cases i)
    case 0
    with Cons.prems show ?thesis by simp
  next
    case (Suc j)
    with Cons.prems have "size c < Suc (size_list (size_option size) cs)"
      by (intro Cons.IH [of j]) simp_all
    then show ?thesis by simp
  qed
qed

function insert_st ::
  "StackTrie \<Rightarrow> stNode \<Rightarrow> byte list \<Rightarrow> byte list \<Rightarrow> byte list \<Rightarrow> stNode outcome"
where
  "insert_st t st k value' path =
     (case typ' st of
        branchNode \<Rightarrow>
          (case k of
             [] \<Rightarrow> (Some IndexOutOfRange, st, [])
           | k0 # krest \<Rightarrow>
               (case hashElder t st (unat k0) path of
                  (Some e, st1, evs) \<Rightarrow> (Some e, st1, evs)
                | (None, st1, evs) \<Rightarrow>
                    if unat k0 \<ge> length (children st) then (Some IndexOutOfRange, st1, evs)
                    else
                      (case children st ! unat k0 of
                         None \<Rightarrow> (None, setChild st1 (unat k0) (Some (newLeaf krest value')), evs)
                       | Some c \<Rightarrow>
                           (case insert_st t c krest value' (path @ [k0]) of
                              (e, c', evs') \<Rightarrow>
                                (e, setChild st1 (unat k0) (Some c'), evs @ evs')))))
      | extNode \<Rightarrow>
          (case getDiffIndex st k of
             None \<Rightarrow> (Some IndexOutOfRange, st, [])
           | Some diffidx \<Rightarrow>
               if diffidx = length (key st)
               then (case children st of
                       [] \<Rightarrow> (Some IndexOutOfRange, st, [])
                     | None # cs \<Rightarrow> (Some NilDereference, st, [])
                     | Some c # cs \<Rightarrow>
                         (case insert_st t c (drop diffidx k) value' (path @ take diffidx k) of
                            (e, c', evs) \<Rightarrow> (e, setChild st 0 (Some c'), evs)))
               else splitExt t st diffidx k value' path)
      | leafNode \<Rightarrow>
          (case getDiffIndex st k of
             None \<Rightarrow> (Some IndexOutOfRange, st, [])
           | Some diffidx \<Rightarrow>
               if diffidx \<ge> length (key st) then (Some InsertIntoExistingKey, st, [])
               else splitLeaf t st diffidx k value' path)
      | emptyNode \<Rightarrow> (None, StNode leafNode k value' (children st), [])
      | hashedNode \<Rightarrow> (Some InsertIntoHash, st, []))"
  by pat_completeness auto
termination
proof (relation "measure (\<lambda>(t, st, k, v, path). size st)")
  show "wf (measure (\<lambda>(t, st, k, v, path). size st))" by simp
next
  fix t :: StackTrie and st :: stNode and k value' path :: "byte list"
    and x21 :: byte and x22 :: "byte list" and c :: stNode
  assume "\<not> length (children st) \<le> unat x21" "children st ! unat x21 = Some c"
  then show "((t, c, x22, value', path @ [x21]), t, st, k, value', path)
      \<in> measure (\<lambda>(t, st, k, v, path). size st)"
    using size_child_nth [of "unat x21" "children st" c] by (cases st) simp
next
  fix t :: StackTrie and st :: stNode and k value' path :: "byte list"
    and x2 :: nat and x21 :: "stNode option" and x22 :: "stNode option list" and x2a :: stNode
  assume "children st = x21 # x22" "x21 = Some x2a"
  then show "((t, x2a, drop x2 k, value', path @ take x2 k), t, st, k, value', path)
      \<in> measure (\<lambda>(t, st, k, v, path). size st)"
    by (cases st) simp
qed

declare insert_st.simps [simp del]

subsection \<open>The public operations\<close>

text \<open>\<^verbatim>\<open>TryUpdate\<close> returns an \<^verbatim>\<open>error\<close>; \<open>None\<close> is nil. The only \<^verbatim>\<open>return\<close> of the
  source returns nil.\<close>

datatype error = Error string

definition TryUpdate ::
  "StackTrie \<Rightarrow> byte list \<Rightarrow> byte list \<Rightarrow> panic option \<times> StackTrie \<times> error option \<times> event list"
where
  "TryUpdate t key' value' =
     (let k = keybytesToHex key' in
      if length value' = 0 then (Some DeletionNotSupported, t, None, [])
      else
        let k = butlast k;
            t1 = (if first t = None then t\<lparr>first := Some k\<rparr> else t);
            t2 = t1\<lparr>last' := Some k\<rparr>
        in case insert_st t2 (root t2) k value' [] of
             (e, r, evs) \<Rightarrow> (e, t2\<lparr>root := r\<rparr>, None, evs))"

definition Update :: "StackTrie \<Rightarrow> byte list \<Rightarrow> byte list \<Rightarrow> StackTrie outcome" where
  "Update t key' value' =
     (case TryUpdate t key' value' of
        (Some e, t', err, evs) \<Rightarrow> (Some e, t', evs)
      | (None, t', err, evs) \<Rightarrow>
          (None, t', evs @ (case err of None \<Rightarrow> [] | Some err' \<Rightarrow> [LogError])))"

text \<open>\<^verbatim>\<open>Hash\<close> returns the hash unless it panics.\<close>

definition Hash :: "StackTrie \<Rightarrow> panic option \<times> StackTrie \<times> byte list option \<times> event list"
where
  "Hash t =
     (case hash t (root t) [] of
        (Some e, n, evs) \<Rightarrow> (Some e, t\<lparr>root := n\<rparr>, None, evs)
      | (None, n, evs) \<Rightarrow> (None, t\<lparr>root := n\<rparr>, Some (BytesToHash (val n)), evs))"

definition Commit :: "StackTrie \<Rightarrow> panic option \<times> StackTrie \<times> byte list option \<times> event list"
where
  "Commit t = Hash t"

section \<open>Runs of a trie and what the properties are stated with\<close>

text \<open>The hex-encoded key without the terminator, as \<^verbatim>\<open>TryUpdate\<close> computes it.\<close>

definition hexKey :: "byte list \<Rightarrow> byte list" where
  "hexKey key' = butlast (keybytesToHex key')"

text \<open>A lifetime of a trie is a sequence of calls of its public operations; it ends at
  the first call that panics.\<close>

datatype operation = DoUpdate "byte list" "byte list" | DoHash | DoCommit

definition perform :: "StackTrie \<Rightarrow> operation \<Rightarrow> StackTrie outcome" where
  "perform t op =
     (case op of
        DoUpdate key' value' \<Rightarrow> Update t key' value'
      | DoHash \<Rightarrow> (case Hash t of (e, t', d, evs) \<Rightarrow> (e, t', evs))
      | DoCommit \<Rightarrow> (case Commit t of (e, t', d, evs) \<Rightarrow> (e, t', evs)))"

fun run :: "StackTrie \<Rightarrow> operation list \<Rightarrow> StackTrie outcome" where
  "run t [] = (None, t, [])"
| "run t (op # ops) =
     (case perform t op of
        (Some e, t', evs) \<Rightarrow> (Some e, t', evs)
      | (None, t', evs) \<Rightarrow> (case run t' ops of (e, t'', evs') \<Rightarrow> (e, t'', evs @ evs')))"

definition updates :: "(byte list \<times> byte list) list \<Rightarrow> operation list" where
  "updates kvs = map (\<lambda>(key', value'). DoUpdate key' value') kvs"

text \<open>The calls of the writer in an event list: the paths and hashes it was given.\<close>

fun writesOf :: "event list \<Rightarrow> (byte list \<times> byte list) list" where
  "writesOf [] = []"
| "writesOf (Write p d b # evs) = (p, d) # writesOf evs"
| "writesOf (ev # evs) = writesOf evs"

text \<open>The order of keys, \<^verbatim>\<open>bytes.Compare(a, b) < 0\<close>, and sequences of keys in which
  each key is less than the next.\<close>

fun keyLess :: "byte list \<Rightarrow> byte list \<Rightarrow> bool" where
  "keyLess [] [] = False"
| "keyLess [] (b # bs) = True"
| "keyLess (a # as) [] = False"
| "keyLess (a # as) (b # bs) = (a < b \<or> (a = b \<and> keyLess as bs))"

fun increasing :: "byte list list \<Rightarrow> bool" where
  "increasing (a # b # ks) = (keyLess a b \<and> increasing (b # ks))"
| "increasing ks = True"

text \<open>A node that is finished: it is hashed and owns no child.\<close>

definition noChildren :: "stNode option list \<Rightarrow> bool" where
  "noChildren cs = list_all (\<lambda>c. c = None) cs"

definition sealed :: "stNode \<Rightarrow> bool" where
  "sealed c = (typ' c = hashedNode \<and> noChildren (children c))"

text \<open>\<open>frontier st k\<close>: below \<open>st\<close> the nodes that are not hashed are the nodes on the
  path of the key with remaining nibbles \<open>k\<close>, which ends in the leaf of that key; in a
  branch on the path every slot to the left of the path is empty or holds a finished node,
  and every slot to the right of it is empty.\<close>

function frontier :: "stNode \<Rightarrow> byte list \<Rightarrow> bool" where
  "frontier st k =
     (length (children st) = 16 \<and>
      (case typ' st of
         leafNode \<Rightarrow> key st = k \<and> noChildren (children st)
       | extNode \<Rightarrow>
           (case children st of
              Some c # cs \<Rightarrow>
                key st \<noteq> [] \<and> length (key st) \<le> length k \<and> take (length (key st)) k = key st
                \<and> noChildren cs \<and> frontier c (drop (length (key st)) k)
            | _ \<Rightarrow> False)
       | branchNode \<Rightarrow>
           (case k of
              [] \<Rightarrow> False
            | k0 # krest \<Rightarrow>
                if unat k0 < length (children st)
                then list_all (\<lambda>c. case c of None \<Rightarrow> True | Some c' \<Rightarrow> sealed c')
                       (take (unat k0) (children st))
                  \<and> noChildren (drop (Suc (unat k0)) (children st))
                  \<and> (case children st ! unat k0 of
                        Some c \<Rightarrow> frontier c krest
                      | None \<Rightarrow> False)
                else False)
       | _ \<Rightarrow> False))"
  by pat_completeness auto
termination
proof (relation "measure (\<lambda>(st, k). size st)")
  show "wf (measure (\<lambda>(st, k). size st))" by simp
next
  fix st :: stNode and k :: "byte list" and x21 :: "stNode option"
    and x22 :: "stNode option list" and x2 :: stNode
  assume "children st = x21 # x22" "x21 = Some x2"
  then show "((x2, drop (length (key st)) k), st, k) \<in> measure (\<lambda>(st, k). size st)"
    by (cases st) simp
next
  fix st :: stNode and k :: "byte list" and x21 :: byte and x22 :: "byte list" and x2 :: stNode
  assume "unat x21 < length (children st)" "children st ! unat x21 = Some x2"
  then show "((x2, x22), st, k) \<in> measure (\<lambda>(st, k). size st)"
    using size_child_nth [of "unat x21" "children st" x2] by (cases st) simp
qed

declare frontier.simps [simp del]

subsection \<open>Concrete tries\<close>

text \<open>A stand-in for Keccak-256 with digests of 32 bytes, and option records, for running
  the operations on concrete keys.\<close>

definition paddingHasher :: hasher where
  "paddingHasher = \<lparr>hashData = (\<lambda>b. take 32 (b @ replicate 32 0))\<rparr>"

definition sinkOptions :: StackTrieOptions where
  "sinkOptions =
     \<lparr>Writer = True, Cleaner = True, SkipLeftBoundary = False, SkipRightBoundary = False,
      boundaryGauge = True\<rparr>"

definition skipOptions :: StackTrieOptions where
  "skipOptions =
     \<lparr>Writer = True, Cleaner = True, SkipLeftBoundary = True, SkipRightBoundary = True,
      boundaryGauge = True\<rparr>"

section \<open>Properties\<close>

subsection \<open>What hash and insert hand to the sink\<close>

lemma HasPrefix_prefix: "HasPrefix s p = prefix p s"
  by (auto simp: HasPrefix_def prefix_def) (metis append_eq_conv_conj)

definition emitted :: "StackTrie \<Rightarrow> byte list \<Rightarrow> event \<Rightarrow> bool" where
  "emitted t path ev =
     (case ev of
        Write p d b \<Rightarrow> prefix path p \<and> Writer (options t)
          \<and> \<not> (SkipLeftBoundary (options t) \<and> prefix p (bytesOf (first t)))
          \<and> \<not> (SkipRightBoundary (options t) \<and> prefix p (bytesOf (last' t)))
      | Clean p \<Rightarrow> prefix path p \<and> Cleaner (options t)
      | GaugeInc \<Rightarrow> boundaryGauge (options t)
      | LogError \<Rightarrow> False)"

lemma emitted_mono: "emitted t (path @ q) ev \<Longrightarrow> emitted t path ev"
  by (auto simp: emitted_def split: event.splits dest: append_prefixD)

lemma emitted_mono_all: "list_all (emitted t (path @ q)) evs \<Longrightarrow> list_all (emitted t path) evs"
  by (auto simp: list_all_iff intro: emitted_mono)

lemma finishHash_emitted:
  "finishHash t st path blob internal = (st', evs) \<Longrightarrow> list_all (\<lambda>q. prefix path q \<and> Cleaner (options t)) internal
     \<Longrightarrow> list_all (emitted t path) evs"
  by (auto simp: finishHash_def Let_def emitted_def HasPrefix_prefix list_all_iff split: if_splits)

lemma internalPaths_prefix: "list_all (\<lambda>q. prefix path q \<and> Cleaner (options t)) (internalPaths t c path k)"
  by (auto simp: internalPaths_def list_all_iff split: if_splits)

lemma hash_emitted_aux:
  "(\<forall>e st' evs. hash t st path = (e, st', evs) \<longrightarrow> list_all (emitted t path) evs)"
  "(\<forall>e st' blob internal evs. hashSwitch t st path = (e, st', blob, internal, evs) \<longrightarrow>
       list_all (emitted t path) evs \<and> list_all (\<lambda>q. prefix path q \<and> Cleaner (options t)) internal)"
  "(\<forall>e cs' refs evs. hashChildren t cs i path = (e, cs', refs, evs) \<longrightarrow> list_all (emitted t path) evs)"
proof (induction t st path and t st path and t cs i path rule: hash_hashSwitch_hashChildren.induct)
  case (1 t st path)
  show ?case
    apply (subst hash.simps)
    using 1 apply (auto split: prod.splits option.splits dest: finishHash_emitted)
    done
next
  case (5 t k v child cs path)
  then show ?case by (auto simp: internalPaths_prefix split: prod.splits option.splits dest: emitted_mono_all)
next
  case (10 t child cs i path)
  then show ?case by (auto split: prod.splits option.splits dest: emitted_mono_all)
qed (auto split: prod.splits)

lemma hash_emitted: "hash t st path = (e, st', evs) \<Longrightarrow> list_all (emitted t path) evs"
  using hash_emitted_aux(1) by blast

lemma hashElder_emitted: "hashElder t st idx path = (e, st', evs) \<Longrightarrow> list_all (emitted t path) evs"
  by (auto simp: hashElder_def split: if_splits option.splits prod.splits dest!: hash_emitted emitted_mono_all)

lemma hashOriginal_emitted: "hashOriginal t st d path = (e, st', n, evs) \<Longrightarrow> list_all (emitted t path) evs"
  by (auto simp: hashOriginal_def split: if_splits list.splits option.splits prod.splits dest!: hash_emitted emitted_mono_all)

lemma splitExt_emitted: "splitExt t st d k v path = (e, st', evs) \<Longrightarrow> list_all (emitted t path) evs"
  by (auto simp: splitExt_def split: if_splits list.splits option.splits prod.splits stNode.splits dest!: hashOriginal_emitted)

lemma splitLeaf_emitted: "splitLeaf t st d k v path = (e, st', evs) \<Longrightarrow> list_all (emitted t path) evs"
  by (auto simp: splitLeaf_def Let_def split: if_splits list.splits option.splits prod.splits stNode.splits dest!: hash_emitted emitted_mono_all)

lemma size_nth_child: "i < length (children st) \<Longrightarrow> children st ! i = Some c \<Longrightarrow> size c < size st"
  using size_child_nth [of i "children st" c] by (cases st) simp

lemma size_hd_child: "children st = Some c # cs \<Longrightarrow> size c < size st"
  by (cases st) simp

lemma insert_emitted: "insert_st t st k v path = (e, st', evs) \<Longrightarrow> list_all (emitted t path) evs"
proof (induction st arbitrary: k path e st' evs rule: measure_induct_rule [of size])
  case (less st)
  note IH = less.IH [rotated]
  show ?case
  proof (cases "typ' st")
    case emptyNode
    with less.prems show ?thesis by (simp add: insert_st.simps)
  next
    case branchNode
    with less.prems show ?thesis
      by (subst (asm) insert_st.simps)
        (auto split: list.splits prod.splits option.splits if_splits
              dest!: hashElder_emitted emitted_mono_all IH simp: not_le intro: size_nth_child)
  next
    case extNode
    with less.prems show ?thesis
      by (subst (asm) insert_st.simps)
        (auto split: list.splits prod.splits option.splits if_splits
              dest!: splitExt_emitted emitted_mono_all IH simp: size_hd_child)
  next
    case leafNode
    with less.prems show ?thesis
      by (subst (asm) insert_st.simps)
        (auto split: list.splits prod.splits option.splits if_splits dest!: splitLeaf_emitted)
  next
    case hashedNode
    with less.prems show ?thesis by (simp add: insert_st.simps)
  qed
qed

subsection \<open>The claims about single calls\<close>

lemma finishHash_hashed: "finishHash t st path blob internal = (st', evs) \<Longrightarrow> typ' st' = hashedNode"
  by (auto simp: finishHash_def Let_def split: if_splits)

lemma hash_hashed: "hash t st path = (None, st', evs) \<Longrightarrow> typ' st' = hashedNode"
  by (auto simp: hash.simps split: if_splits prod.splits option.splits dest: finishHash_hashed)

text \<open>C1. A trie on which no Update has been performed, whether new or reset, hashes to
  the canonical empty-root constant 56e81f17...e363b421, and its root becomes a hashed node
  that holds these 32 bytes; nothing is handed to the sink.\<close>
theorem Hash_empty_trie:
  "Hash (NewStackTrie hs opts) =
     (None, (NewStackTrie hs opts)\<lparr>root := StNode hashedNode [] emptyRoot (replicate 16 None)\<rparr>,
      Some emptyRoot, [])
   \<and> Hash (Reset t) =
     (None, (Reset t)\<lparr>root := StNode hashedNode [] emptyRoot (replicate 16 None)\<rparr>,
      Some emptyRoot, [])
   \<and> emptyRoot =
       [0x56, 0xe8, 0x1f, 0x17, 0x1b, 0xcc, 0x55, 0xa6, 0xff, 0x83, 0x45, 0xe6, 0x92, 0xc0, 0xf8, 0x6e,
        0x5b, 0x48, 0xe0, 0x1b, 0x99, 0x6c, 0xad, 0xc0, 0x01, 0x62, 0x2f, 0xb5, 0xe3, 0x63, 0xb4, 0x21]
   \<and> length emptyRoot = 32"
  by (simp add: Hash_def NewStackTrie_def Reset_def poolGet_def hash.simps BytesToHash_def emptyRoot_def)

text \<open>C9. When \<^verbatim>\<open>Hash\<close> has returned, a second call with no Update in between returns
  the same digest, leaves the trie as it is and causes no event: \<^verbatim>\<open>hash\<close> on the hashed
  root is the shortcut.\<close>
theorem Hash_twice:
  assumes "Hash t = (None, t1, d, evs)"
  shows "Hash t1 = (None, t1, d, []) \<and> hash t1 (root t1) [] = (None, root t1, [])"
proof -
  obtain e n evs' where hn: "hash t (root t) [] = (e, n, evs')"
    by (cases "hash t (root t) []") auto
  with assms have e: "e = None" and t1: "t1 = t\<lparr>root := n\<rparr>" and d: "d = Some (BytesToHash (val n))"
    by (auto simp: Hash_def split: option.splits)
  from hn e have "typ' n = hashedNode" by (auto dest: hash_hashed)
  then have "hash t1 n [] = (None, n, [])" by (simp add: hash.simps)
  then show ?thesis by (simp add: Hash_def t1 d)
qed

theorem Hash_twice_witness:
  "Hash (fst (snd (Hash (fst (snd (Update (NewStackTrie paddingHasher (Some sinkOptions)) [0x10] [1]))))))
     = (None, fst (snd (Hash (fst (snd (Update (NewStackTrie paddingHasher (Some sinkOptions)) [0x10] [1]))))),
        Some [0xc4, 0x82, 0x20, 0x10, 1, 0, 0, 0, 0, 0, 0, 0, 0, 0, 0, 0, 0, 0, 0, 0, 0, 0, 0, 0, 0, 0, 0, 0, 0, 0, 0, 0], [])"
proof -
  let ?t = "fst (snd (Update (NewStackTrie paddingHasher (Some sinkOptions)) [0x10] [1]))"
  have "fst (Hash ?t) = None \<and> fst (snd (snd (Hash ?t))) =
      Some [0xc4, 0x82, 0x20, 0x10, 1, 0, 0, 0, 0, 0, 0, 0, 0, 0, 0, 0, 0, 0, 0, 0, 0, 0, 0, 0, 0, 0, 0, 0, 0, 0, 0, 0]"
    by code_simp
  then have "Hash ?t = (None, fst (snd (Hash ?t)),
      Some [0xc4, 0x82, 0x20, 0x10, 1, 0, 0, 0, 0, 0, 0, 0, 0, 0, 0, 0, 0, 0, 0, 0, 0, 0, 0, 0, 0, 0, 0, 0, 0, 0, 0, 0],
      snd (snd (snd (Hash ?t))))"
    by (cases "Hash ?t") auto
  from Hash_twice [OF this] show ?thesis by simp
qed

text \<open>C7. \<^verbatim>\<open>Update\<close> with an empty value does not return: it stops with the panic
  "deletion not supported", raised in the call itself. No error value is returned:
  \<^verbatim>\<open>Update\<close> has no result, and the error of \<^verbatim>\<open>TryUpdate\<close> is nil. The trie is the one
  before the call and there is no event.\<close>
theorem Update_empty_value:
  "Update t key' [] = (Some DeletionNotSupported, t, [])
   \<and> TryUpdate t key' [] = (Some DeletionNotSupported, t, None, [])"
  by (simp add: Update_def TryUpdate_def)

text \<open>The failure is not an error that the call returns. On a new trie, \<^verbatim>\<open>TryUpdate\<close> with
  the key 0x10 and an empty value panics; the error it would return is nil, and \<^verbatim>\<open>Update\<close>,
  which has no result, panics as well and logs no error.\<close>
theorem Update_empty_value_counterexample:
  "fst (TryUpdate (NewStackTrie paddingHasher None) [0x10] []) = Some DeletionNotSupported
   \<and> fst (snd (snd (TryUpdate (NewStackTrie paddingHasher None) [0x10] []))) = None
   \<and> fst (Update (NewStackTrie paddingHasher None) [0x10] []) = Some DeletionNotSupported
   \<and> snd (snd (Update (NewStackTrie paddingHasher None) [0x10] [])) = []"
  by (simp add: Update_def TryUpdate_def)

text \<open>C10. \<^verbatim>\<open>TryUpdate\<close> never returns an error that is not nil: it panics or returns
  nil, so \<^verbatim>\<open>Update\<close> never reaches its logging branch. An empty value, a leaf whose
  chunk does not differ from the key, and a hashed node are panics.\<close>
theorem TryUpdate_panics_or_nil:
  "fst (snd (snd (TryUpdate t key' value'))) = None
   \<and> Update t key' value' = (case TryUpdate t key' value' of (e, t', err, evs) \<Rightarrow> (e, t', evs))
   \<and> fst (TryUpdate t key' []) = Some DeletionNotSupported
   \<and> (typ' st = leafNode \<and> getDiffIndex st k = Some d \<and> length (key st) \<le> d
        \<longrightarrow> fst (insert_st t st k value' path) = Some InsertIntoExistingKey)
   \<and> (typ' st = hashedNode \<longrightarrow> fst (insert_st t st k value' path) = Some InsertIntoHash)"
  by (auto simp: Update_def TryUpdate_def Let_def insert_st.simps split: prod.splits option.splits)

theorem TryUpdate_panics_or_nil_witness:
  "TryUpdate (NewStackTrie paddingHasher None) [0x10] [1]
     = (None, fst (snd (TryUpdate (NewStackTrie paddingHasher None) [0x10] [1])), None, [])
   \<and> fst (insert_st (NewStackTrie paddingHasher None) (newLeaf [1, 0] [1]) [1, 0] [1] []) = Some InsertIntoExistingKey
   \<and> fst (insert_st (NewStackTrie paddingHasher None) (StNode hashedNode [] emptyRoot (replicate 16 None)) [1, 0] [1] [])
        = Some InsertIntoHash"
proof -
  note T = TryUpdate_panics_or_nil [of "NewStackTrie paddingHasher None" "[0x10]" "[1]"
      "newLeaf [1, 0] [1]" "[1, 0]" 2 "[]"]
  note T' = TryUpdate_panics_or_nil [of "NewStackTrie paddingHasher None" "[0x10]" "[1]"
      "StNode hashedNode [] emptyRoot (replicate 16 None)" "[1, 0]" 2 "[]"]
  have a: "fst (TryUpdate (NewStackTrie paddingHasher None) [0x10] [1]) = None
    \<and> snd (snd (snd (TryUpdate (NewStackTrie paddingHasher None) [0x10] [1]))) = []"
    by code_simp
  have b: "typ' (newLeaf [1, 0] [1]) = leafNode \<and> getDiffIndex (newLeaf [1, 0] [1]) [1, 0] = Some 2
    \<and> length (key (newLeaf [1, 0] [1])) \<le> 2"
    by (simp add: newLeaf_def getDiffIndex_def)
  from T a have 1: "TryUpdate (NewStackTrie paddingHasher None) [0x10] [1]
     = (None, fst (snd (TryUpdate (NewStackTrie paddingHasher None) [0x10] [1])), None, [])"
    by (cases "TryUpdate (NewStackTrie paddingHasher None) [0x10] [1]") auto
  from T b have 2: "fst (insert_st (NewStackTrie paddingHasher None) (newLeaf [1, 0] [1]) [1, 0] [1] []) = Some InsertIntoExistingKey"
    by blast
  from T' have 3: "fst (insert_st (NewStackTrie paddingHasher None) (StNode hashedNode [] emptyRoot (replicate 16 None)) [1, 0] [1] [])
        = Some InsertIntoHash" by simp
  from 1 2 3 show ?thesis by blast
qed

text \<open>C3. A node that is hashed at a non-empty path and whose blob is shorter than 32
  bytes becomes a hashed node that holds the blob; the events of \<^verbatim>\<open>hash\<close> are those of the
  children alone, the end of \<^verbatim>\<open>hash\<close> adds no call of the writer, the cleaner or the
  gauge.\<close>
theorem hash_inline_node:
  assumes "typ' st \<noteq> hashedNode" and "typ' st \<noteq> emptyNode"
    and "hashSwitch t st path = (None, st1, blob, internal, evs)"
    and "length blob < 32" and "path \<noteq> []"
  shows "hash t st path = (None, StNode hashedNode [] blob (children st1), evs)
    \<and> finishHash t st1 path blob internal = (StNode hashedNode [] blob (children st1), [])"
  using assms by (simp add: hash.simps finishHash_def)

theorem hash_inline_node_witness:
  "hash (NewStackTrie paddingHasher (Some sinkOptions)) (newLeaf [] [1]) [0]
     = (None, StNode hashedNode [] [0xc2, 0x20, 1] (replicate 16 None), [])"
proof -
  have s: "hashSwitch (NewStackTrie paddingHasher (Some sinkOptions)) (newLeaf [] [1]) [0]
      = (None, newLeaf [] [1], [0xc2, 0x20, 1], [], [])"
    by code_simp
  from hash_inline_node [OF _ _ s] show ?thesis by (simp add: newLeaf_def)
qed

subsection \<open>The boundaries\<close>

lemma writesOf_append: "writesOf (a @ b) = writesOf a @ writesOf b"
  by (induction a rule: writesOf.induct) auto

lemma writesOf_iff: "(p, d) \<in> set (writesOf evs) \<longleftrightarrow> (\<exists>b. Write p d b \<in> set evs)"
  by (induction evs rule: writesOf.induct) auto

lemma emitted_Write:
  "list_all (emitted t path) evs \<Longrightarrow> (p, d) \<in> set (writesOf evs) \<Longrightarrow>
     prefix path p \<and> Writer (options t)
     \<and> \<not> (SkipLeftBoundary (options t) \<and> prefix p (bytesOf (first t)))
     \<and> \<not> (SkipRightBoundary (options t) \<and> prefix p (bytesOf (last' t)))"
  by (auto simp: writesOf_iff list_all_iff emitted_def split: event.splits)

lemma emitted_Clean:
  "list_all (emitted t path) evs \<Longrightarrow> Clean q \<in> set evs \<Longrightarrow> prefix path q"
  by (auto simp: list_all_iff emitted_def split: event.splits)

lemma emitted_cong:
  "options t' = options t \<Longrightarrow> first t' = first t \<Longrightarrow> last' t' = last' t \<Longrightarrow> emitted t' = emitted t"
  by (auto simp: emitted_def fun_eq_iff split: event.splits)

lemma emitted_root_update [simp]: "emitted (t\<lparr>root := r\<rparr>) = emitted t"
  by (simp add: emitted_def fun_eq_iff split: event.splits)

lemma Update_TryUpdate:
  "Update t key' value' = (case TryUpdate t key' value' of (e, t', err, evs) \<Rightarrow> (e, t', evs))"
  by (auto simp: Update_def TryUpdate_def Let_def split: prod.splits option.splits)

lemma TryUpdate_fields:
  assumes "TryUpdate t key' value' = (e, t', err, evs)" and "value' \<noteq> []"
  shows "options t' = options t \<and> h t' = h t
     \<and> first t' = (if first t = None then Some (hexKey key') else first t)
     \<and> last' t' = Some (hexKey key') \<and> list_all (emitted t' []) evs"
proof -
  define t2 where "t2 = (if first t = None then t\<lparr>first := Some (hexKey key')\<rparr> else t)
      \<lparr>last' := Some (hexKey key')\<rparr>"
  obtain r where ins: "insert_st t2 (root t2) (hexKey key') value' [] = (e, r, evs)"
    and t': "t' = t2\<lparr>root := r\<rparr>"
    using assms by (auto simp: TryUpdate_def Let_def hexKey_def t2_def split: prod.splits if_splits)
  from insert_emitted [OF ins] show ?thesis
    by (simp add: t' t2_def)
qed

lemma Hash_fields:
  assumes "Hash t = (e, t', d, evs)"
  shows "options t' = options t \<and> h t' = h t \<and> first t' = first t \<and> last' t' = last' t
     \<and> list_all (emitted t' []) evs
     \<and> (typ' (root t) = emptyNode \<or> typ' (root t) = hashedNode \<longrightarrow> evs = [])
     \<and> (e = None \<longrightarrow> typ' (root t') = hashedNode)"
proof -
  obtain n where hn: "hash t (root t) [] = (e, n, evs)" and t': "t' = t\<lparr>root := n\<rparr>"
    using assms by (auto simp: Hash_def split: prod.splits option.splits)
  have 1: "e = None \<longrightarrow> typ' n = hashedNode"
    using hn by (auto dest: hash_hashed)
  have 2: "typ' (root t) = emptyNode \<or> typ' (root t) = hashedNode \<longrightarrow> evs = []"
    using hn by (auto simp: hash.simps)
  from hash_emitted [OF hn] 1 2 show ?thesis
    by (simp add: t')
qed

lemma perform_fields:
  assumes "perform t op = (e, t', evs)"
  shows "options t' = options t \<and> h t' = h t
     \<and> (first t \<noteq> None \<longrightarrow> first t' = first t)
     \<and> list_all (emitted t' []) evs
     \<and> (first t' = None \<longrightarrow> evs = [] \<or> first t = None \<and> typ' (root t) \<noteq> emptyNode \<and> typ' (root t) \<noteq> hashedNode)
     \<and> (first t' = None \<and> e = None \<and> first t = None \<longrightarrow> typ' (root t') = hashedNode)"
proof (cases op)
  case (DoUpdate key' value')
  show ?thesis
  proof (cases "value' = []")
    case True
    with assms DoUpdate show ?thesis
      by (auto simp: perform_def Update_def TryUpdate_def)
  next
    case False
    obtain err evs0 where tu: "TryUpdate t key' value' = (e, t', err, evs0)" and "evs = evs0"
      using assms DoUpdate Update_TryUpdate [of t key' value']
      by (cases "TryUpdate t key' value'") (auto simp: perform_def)
    with TryUpdate_fields [OF tu False] show ?thesis by auto
  qed
next
  case DoHash
  with assms obtain d where "Hash t = (e, t', d, evs)"
    by (auto simp: perform_def split: prod.splits)
  from Hash_fields [OF this] show ?thesis by auto
next
  case DoCommit
  with assms obtain d where "Hash t = (e, t', d, evs)"
    by (auto simp: perform_def Commit_def split: prod.splits)
  from Hash_fields [OF this] show ?thesis by auto
qed

definition quiet :: "StackTrie \<Rightarrow> bool" where
  "quiet t = (first t = None \<longrightarrow> typ' (root t) = emptyNode \<or> typ' (root t) = hashedNode)"

lemma run_first_kept:
  "run t ops = (e, t', evs) \<Longrightarrow> first t \<noteq> None \<Longrightarrow> first t' = first t"
proof (induction ops arbitrary: t e t' evs)
  case Nil
  then show ?case by simp
next
  case (Cons op ops)
  obtain e1 t1 evs1 where p: "perform t op = (e1, t1, evs1)"
    by (cases "perform t op") auto
  note f = perform_fields [OF p]
  show ?case
  proof (cases e1)
    case (Some x)
    with Cons.prems p f show ?thesis by auto
  next
    case None
    with Cons.prems p obtain evs2 where r: "run t1 ops = (e, t', evs2)"
      by (auto split: prod.splits)
    from f Cons.prems(2) have "first t1 = first t" by simp
    with Cons.IH [OF r] Cons.prems(2) show ?thesis by simp
  qed
qed

lemma run_left:
  assumes "run t ops = (e, t', evs)" and "quiet t"
  shows "options t' = options t
    \<and> (SkipLeftBoundary (options t) \<longrightarrow>
         (\<forall>(p, d)\<in>set (writesOf evs). \<not> prefix p (bytesOf (first t'))))"
  using assms
proof (induction ops arbitrary: t e t' evs)
  case Nil
  then show ?case by simp
next
  case (Cons op ops)
  obtain e1 t1 evs1 where p: "perform t op = (e1, t1, evs1)"
    by (cases "perform t op") auto
  note f = perform_fields [OF p]
  have w1: "SkipLeftBoundary (options t) \<Longrightarrow> (p', d) \<in> set (writesOf evs1) \<Longrightarrow>
      \<not> prefix p' (bytesOf (first t1))" for p' d
    using f emitted_Write [of t1 "[]" evs1 p' d] by auto
  show ?case
  proof (cases e1)
    case (Some x)
    with Cons.prems p have "t' = t1" "evs = evs1" by auto
    with f w1 show ?thesis by auto
  next
    case None
    with Cons.prems p obtain evs2 where r: "run t1 ops = (e, t', evs2)" and evs: "evs = evs1 @ evs2"
      by (auto split: prod.splits)
    have q1: "quiet t1"
      using f None Cons.prems(2) by (auto simp: quiet_def)
    note IH = Cons.IH [OF r q1]
    have keep: "first t1 \<noteq> None \<Longrightarrow> first t' = first t1"
      using run_first_kept [OF r] .
    have "evs1 = [] \<or> first t1 \<noteq> None"
      using f Cons.prems(2) by (auto simp: quiet_def)
    with IH f w1 keep show ?thesis
      by (auto simp: evs writesOf_append)
  qed
qed

lemma quiet_new: "quiet (NewStackTrie hs opts)"
  by (simp add: quiet_def NewStackTrie_def poolGet_def)

text \<open>C4. With \<^verbatim>\<open>SkipLeftBoundary\<close> set, no path that the writer is given in the lifetime
  of a trie is a prefix of the field \<^verbatim>\<open>first\<close>, the nibble path of the first inserted key;
  with \<^verbatim>\<open>SkipRightBoundary\<close> set, no path that the writer is given in a call is a prefix
  of the field \<^verbatim>\<open>last\<close> as the call leaves it, the nibble path of the last inserted key.
  \<^verbatim>\<open>TryUpdate\<close> stores these two paths. A node that would be written and lies on a
  boundary that is skipped is counted by the gauge, when there is one, and not written.\<close>

theorem skip_boundary:
  "(run (NewStackTrie hs (Some opts)) ops = (e, t, evs) \<and> SkipLeftBoundary opts
       \<and> (p, d) \<in> set (writesOf evs) \<longrightarrow> \<not> prefix p (bytesOf (first t)))
   \<and> (perform u op = (e', u', evs') \<and> SkipRightBoundary (options u)
       \<and> (p', d') \<in> set (writesOf evs') \<longrightarrow> \<not> prefix p' (bytesOf (last' u')))
   \<and> (value' \<noteq> [] \<longrightarrow>
        first (fst (snd (TryUpdate u key' value')))
          = (if first u = None then Some (hexKey key') else first u)
        \<and> last' (fst (snd (TryUpdate u key' value'))) = Some (hexKey key'))
   \<and> (Writer (options u) \<and> \<not> (length blob < 32 \<and> path \<noteq> [])
       \<and> SkipLeftBoundary (options u) \<and> prefix path (bytesOf (first u))
       \<longrightarrow> snd (finishHash u st path blob internal)
            = (if boundaryGauge (options u) then [GaugeInc] else []))
   \<and> (Writer (options u) \<and> \<not> (length blob < 32 \<and> path \<noteq> [])
       \<and> SkipRightBoundary (options u) \<and> prefix path (bytesOf (last' u))
       \<longrightarrow> snd (finishHash u st path blob internal)
            = (if boundaryGauge (options u) then [GaugeInc] else []))"
proof -
  have L: "run (NewStackTrie hs (Some opts)) ops = (e, t, evs) \<and> SkipLeftBoundary opts
       \<and> (p, d) \<in> set (writesOf evs) \<longrightarrow> \<not> prefix p (bytesOf (first t))"
    using run_left [of "NewStackTrie hs (Some opts)" ops e t evs, OF _ quiet_new]
    by (auto simp: NewStackTrie_def)
  have R: "perform u op = (e', u', evs') \<and> SkipRightBoundary (options u)
       \<and> (p', d') \<in> set (writesOf evs') \<longrightarrow> \<not> prefix p' (bytesOf (last' u'))"
  proof (intro impI, elim conjE)
    assume a: "perform u op = (e', u', evs')" "SkipRightBoundary (options u)"
      "(p', d') \<in> set (writesOf evs')"
    from perform_fields [OF a(1)] emitted_Write [of u' "[]" evs' p' d'] a(2,3)
    show "\<not> prefix p' (bytesOf (last' u'))" by auto
  qed
  have T: "value' \<noteq> [] \<longrightarrow>
        first (fst (snd (TryUpdate u key' value')))
          = (if first u = None then Some (hexKey key') else first u)
        \<and> last' (fst (snd (TryUpdate u key' value'))) = Some (hexKey key')"
    using TryUpdate_fields [of u key' value']
    by (cases "TryUpdate u key' value'") auto
  have G: "Writer (options u) \<and> \<not> (length blob < 32 \<and> path \<noteq> [])
       \<and> SkipLeftBoundary (options u) \<and> prefix path (bytesOf (first u))
       \<longrightarrow> snd (finishHash u st path blob internal)
            = (if boundaryGauge (options u) then [GaugeInc] else [])"
    by (auto simp: finishHash_def Let_def HasPrefix_prefix)
  have G': "Writer (options u) \<and> \<not> (length blob < 32 \<and> path \<noteq> [])
       \<and> SkipRightBoundary (options u) \<and> prefix path (bytesOf (last' u))
       \<longrightarrow> snd (finishHash u st path blob internal)
            = (if boundaryGauge (options u) then [GaugeInc] else [])"
    by (auto simp: finishHash_def Let_def HasPrefix_prefix)
  from L R T G G' show ?thesis by blast
qed

theorem skip_boundary_witness:
  "writesOf (snd (snd (run (NewStackTrie paddingHasher (Some skipOptions))
       (updates [([0x00], [1]), ([0x11], replicate 32 7), ([0x22], [3])]))))
     = [([1], 0xe2 # 0x31 # 0xa0 # replicate 29 7)]
   \<and> \<not> prefix [1] (bytesOf (first (fst (snd (run (NewStackTrie paddingHasher (Some skipOptions))
       (updates [([0x00], [1]), ([0x11], replicate 32 7), ([0x22], [3])]))))))
   \<and> \<not> prefix [1] (bytesOf (last' (fst (snd (perform
         (fst (snd (run (NewStackTrie paddingHasher (Some skipOptions))
             (updates [([0x00], [1]), ([0x11], replicate 32 7)]))))
         (DoUpdate [0x22] [3]))))))
   \<and> last' (fst (snd (TryUpdate (fst (snd (run (NewStackTrie paddingHasher (Some skipOptions))
             (updates [([0x00], [1]), ([0x11], replicate 32 7)])))) [0x22] [3]))) = Some [2, 2]
   \<and> snd (finishHash (fst (snd (run (NewStackTrie paddingHasher (Some skipOptions))
             (updates [([0x00], [1]), ([0x11], replicate 32 7)])))) poolGet [] [] [])
        = [GaugeInc]"
proof -
  let ?T = "NewStackTrie paddingHasher (Some skipOptions)"
  let ?ops = "updates [([0x00], [1]), ([0x11], replicate 32 7), ([0x22], [3])]"
  let ?S = "fst (snd (run ?T (updates [([0x00], [1]), ([0x11], replicate 32 7)])))"
  let ?D = "0xe2 # 0x31 # 0xa0 # replicate 29 (7 :: byte)"
  have w: "writesOf (snd (snd (run ?T ?ops))) = [([1], ?D)]"
    by code_simp
  have w': "writesOf (snd (snd (perform ?S (DoUpdate [0x22] [3])))) = [([1], ?D)]"
    by code_simp
  have o: "SkipLeftBoundary skipOptions" "SkipRightBoundary (options ?S)" "SkipLeftBoundary (options ?S)"
    "Writer (options ?S)" "boundaryGauge (options ?S)"
    by code_simp+
  have k: "hexKey [0x22] = [2, 2]" by code_simp
  note T = skip_boundary [where hs = paddingHasher and opts = skipOptions and ops = ?ops
      and e = "fst (run ?T ?ops)" and t = "fst (snd (run ?T ?ops))" and evs = "snd (snd (run ?T ?ops))"
      and p = "[1]" and d = ?D and u = ?S and op = "DoUpdate [0x22] [3]"
      and e' = "fst (perform ?S (DoUpdate [0x22] [3]))"
      and u' = "fst (snd (perform ?S (DoUpdate [0x22] [3])))"
      and evs' = "snd (snd (perform ?S (DoUpdate [0x22] [3])))"
      and p' = "[1]" and d' = ?D and value' = "[3]" and key' = "[0x22]"
      and blob = "[]" and path = "[]" and st = poolGet and internal = "[]"]
  from T have 1: "\<not> prefix [1] (bytesOf (first (fst (snd (run ?T ?ops)))))"
    using w o(1) by simp
  from T have 2: "\<not> prefix [1] (bytesOf (last' (fst (snd (perform ?S (DoUpdate [0x22] [3]))))))"
    using w' o(2) by simp
  from T have 3: "last' (fst (snd (TryUpdate ?S [0x22] [3]))) = Some [2, 2]"
    using k by simp
  from T have 4: "snd (finishHash ?S poolGet [] [] []) = [GaugeInc]"
    using o by simp
  from w 1 2 3 4 show ?thesis by blast
qed

subsection \<open>The cleaner\<close>

lemma length_rlpBytes: "length b \<le> length (rlpBytes b)"
  by (simp add: rlpBytes_def)

lemma length_rlpList: "length p \<le> length (rlpList p)"
  by (simp add: rlpList_def)

lemma encodeShort_hashNode: "32 \<le> length v \<Longrightarrow> 32 \<le> length (encodeShort k (hashNode v))"
  using length_rlpList [of "rlpBytes k @ rlpBytes v"] length_rlpBytes [of v]
  by (simp add: encodeShort_def)

lemma count_list_distinct: "distinct xs \<Longrightarrow> x \<in> set xs \<Longrightarrow> count_list xs x = 1"
  by (induction xs) auto

lemma count_list_notin: "x \<notin> set xs \<Longrightarrow> count_list xs x = 0"
  by (induction xs) auto

lemma internal_distinct: "distinct (map (\<lambda>i. Clean (path @ take i k)) [1..<length k])"
proof -
  have "inj_on (\<lambda>i. Clean (path @ take i k)) (set [1..<length k])"
  proof (rule inj_onI)
    fix i j assume "i \<in> set [1..<length k]" "j \<in> set [1..<length k]"
      and "Clean (path @ take i k) = Clean (path @ take j k)"
    then have "length (take i k) = length (take j k)" "i < length k" "j < length k" by auto
    then show "i = j" by simp
  qed
  then show ?thesis by (simp add: distinct_map)
qed

lemma hash_live:
  "typ' st \<noteq> hashedNode \<Longrightarrow> typ' st \<noteq> emptyNode \<Longrightarrow>
   hash t st path =
     (case hashSwitch t st path of
        (Some e, st1, blob, internal, evs) \<Rightarrow> (Some e, st1, evs)
      | (None, st1, blob, internal, evs) \<Rightarrow>
          (case finishHash t st1 path blob internal of
             (st', evs') \<Rightarrow> (None, st', evs @ evs')))"
  by (subst hash.simps) simp

text \<open>C5. An extension node at path \<open>path\<close> with chunk \<open>k\<close>, whose child has hashed to
  32 bytes or more, hashed with a cleaner and a writer configured and not skipped as a
  boundary node: the events are those of the child, then one call of the cleaner for each
  \<open>path @ take i k\<close> with \<open>1 \<le> i < length k\<close>, then the call of the writer for \<open>path\<close>;
  each of these cleaner calls occurs exactly once among the events.\<close>

theorem ext_cleaner_before_writer:
  assumes child: "hash t child (path @ k) = (None, child', evs)"
    and big: "32 \<le> length (val child')"
    and opts: "Cleaner (options t)" "Writer (options t)"
    and left: "\<not> (SkipLeftBoundary (options t) \<and> prefix path (bytesOf (first t)))"
    and right: "\<not> (SkipRightBoundary (options t) \<and> prefix path (bytesOf (last' t)))"
  shows "let blob = encodeShort (hexToCompact k) (hashNode (val child'));
             digest = hashData (h t) blob;
             events = evs @ map (\<lambda>i. Clean (path @ take i k)) [1..<length k]
                        @ [Write path (BytesToHash digest) blob]
         in hash t (StNode extNode k v (Some child # cs)) path
              = (None, StNode hashedNode [] digest (None # cs), events)
            \<and> (\<forall>i. 1 \<le> i \<and> i < length k \<longrightarrow> count_list events (Clean (path @ take i k)) = 1)"
proof -
  define blob where "blob = encodeShort (hexToCompact k) (hashNode (val child'))"
  define cleans where "cleans = map (\<lambda>i. Clean (path @ take i k)) [1..<length k]"
  have blob: "32 \<le> length blob"
    using big by (simp add: blob_def encodeShort_hashNode)
  have ref: "childRef child' = hashNode (val child')"
    using big by (simp add: childRef_def)
  have int: "internalPaths t child' path k = map (\<lambda>i. path @ take i k) [1..<length k]"
    using big opts by (simp add: internalPaths_def)
  have fin: "finishHash t (StNode extNode k v (None # cs)) path blob
        (map (\<lambda>i. path @ take i k) [1..<length k])
      = (StNode hashedNode [] (hashData (h t) blob) (None # cs),
         cleans @ [Write path (BytesToHash (hashData (h t) blob)) blob])"
    using blob opts left right
    by (simp add: finishHash_def Let_def HasPrefix_prefix cleans_def comp_def)
  have h: "hash t (StNode extNode k v (Some child # cs)) path
      = (None, StNode hashedNode [] (hashData (h t) blob) (None # cs),
         evs @ cleans @ [Write path (BytesToHash (hashData (h t) blob)) blob])"
    using fin by (simp add: hash_live child ref int blob_def [symmetric])
  have once: "count_list (evs @ cleans @ [Write path (BytesToHash (hashData (h t) blob)) blob])
      (Clean (path @ take i k)) = 1" if i: "1 \<le> i" "i < length k" for i
  proof -
    have "Clean (path @ take i k) \<notin> set evs"
    proof
      assume "Clean (path @ take i k) \<in> set evs"
      with hash_emitted [OF child] have "prefix (path @ k) (path @ take i k)"
        by (rule emitted_Clean)
      then have "length k \<le> length (take i k)"
        by (auto dest: prefix_length_le)
      with i show False by simp
    qed
    moreover have "count_list cleans (Clean (path @ take i k)) = 1"
      unfolding cleans_def using i
      by (intro count_list_distinct internal_distinct) auto
    ultimately show ?thesis by (simp add: count_list_notin)
  qed
  from h once show ?thesis
    by (simp add: Let_def blob_def cleans_def)
qed

definition twoLeaves :: stNode where
  "twoLeaves = StNode branchNode [] []
     ((replicate 16 None)[0 := Some (newLeaf [] (replicate 32 7)), 1 := Some (newLeaf [] (replicate 32 8))])"

theorem ext_cleaner_before_writer_witness:
  "snd (snd (hash (NewStackTrie paddingHasher (Some sinkOptions))
        (StNode extNode [1, 2] [] (Some twoLeaves # replicate 15 None)) []))
     = snd (snd (hash (NewStackTrie paddingHasher (Some sinkOptions)) twoLeaves [1, 2]))
       @ [Clean [1],
          Write []
            (BytesToHash (hashData paddingHasher (encodeShort (hexToCompact [1, 2])
               (hashNode (val (fst (snd (hash (NewStackTrie paddingHasher (Some sinkOptions)) twoLeaves [1, 2]))))))))
            (encodeShort (hexToCompact [1, 2])
               (hashNode (val (fst (snd (hash (NewStackTrie paddingHasher (Some sinkOptions)) twoLeaves [1, 2]))))))]
   \<and> count_list (snd (snd (hash (NewStackTrie paddingHasher (Some sinkOptions))
        (StNode extNode [1, 2] [] (Some twoLeaves # replicate 15 None)) []))) (Clean [1]) = 1"
proof -
  let ?T = "NewStackTrie paddingHasher (Some sinkOptions)"
  let ?c = "fst (snd (hash ?T twoLeaves [1, 2]))"
  let ?evs = "snd (snd (hash ?T twoLeaves [1, 2]))"
  have "fst (hash ?T twoLeaves [1, 2]) = None" by code_simp
  then have c: "hash ?T twoLeaves ([] @ [1, 2]) = (None, ?c, ?evs)"
    by (cases "hash ?T twoLeaves [1, 2]") auto
  have big: "32 \<le> length (val ?c)" by code_simp
  have o: "Cleaner (options ?T)" "Writer (options ?T)"
    "\<not> (SkipLeftBoundary (options ?T) \<and> prefix [] (bytesOf (first ?T)))"
    "\<not> (SkipRightBoundary (options ?T) \<and> prefix [] (bytesOf (last' ?T)))"
    by (simp_all add: NewStackTrie_def sinkOptions_def)
  have hT: "h ?T = paddingHasher" by (simp add: NewStackTrie_def)
  note E = ext_cleaner_before_writer [OF c big o, of "[]" "replicate 15 None", unfolded Let_def]
  have i: "1 \<le> (1::nat) \<and> 1 < length [1::byte, 2]" by simp
  note E1 = E [THEN conjunct1]
  note E2 = E [THEN conjunct2, rule_format, OF i]
  let ?ext = "StNode extNode [1, 2] [] (Some twoLeaves # replicate 15 None)"
  have "count_list (snd (snd (hash ?T ?ext []))) (Clean ([] @ take 1 [1, 2])) = 1"
    by (simp only: E1 snd_conv E2)
  then have 1: "count_list (snd (snd (hash ?T ?ext []))) (Clean [1]) = 1"
    by simp
  have "snd (snd (hash ?T ?ext []))
      = ?evs @ map (\<lambda>i. Clean ([] @ take i [1, 2])) [1..<length [1::byte, 2]] @
          [Write [] (BytesToHash (hashData (h ?T) (encodeShort (hexToCompact [1, 2]) (hashNode (val ?c)))))
             (encodeShort (hexToCompact [1, 2]) (hashNode (val ?c)))]"
    by (simp only: E1 snd_conv)
  then have 2: "snd (snd (hash ?T ?ext []))
      = ?evs @ [Clean [1], Write [] (BytesToHash (hashData paddingHasher (encodeShort (hexToCompact [1, 2]) (hashNode (val ?c)))))
           (encodeShort (hexToCompact [1, 2]) (hashNode (val ?c)))]"
    by (simp add: hT upt_rec)
  from 1 2 show ?thesis by blast
qed

subsection \<open>The frontier of a trie built from increasing keys\<close>

lemma hexKey_simps [simp]:
  "hexKey [] = []"
  "hexKey (b # str) = (b div 16) # (b mod 16) # hexKey str"
proof -
  have "keybytesToHex s \<noteq> []" for s by (cases s) auto
  then show "hexKey (b # str) = (b div 16) # (b mod 16) # hexKey str"
    by (simp add: hexKey_def)
qed (simp add: hexKey_def)

lemma byte_split_less:
  fixes a b :: byte
  assumes "a < b"
  shows "a div 16 < b div 16 \<or> (a div 16 = b div 16 \<and> a mod 16 < b mod 16)"
proof -
  have "unat a < unat b" using assms by (simp add: word_less_nat_alt)
  then have "unat a div 16 < unat b div 16 \<or> (unat a div 16 = unat b div 16 \<and> unat a mod 16 < unat b mod 16)"
    by (metis div_mult_mod_eq less_imp_le_nat div_le_mono nat_add_left_cancel_less nat_less_le)
  then show ?thesis
    by (auto simp: word_less_nat_alt unat_div unat_mod word_unat_eq_iff)
qed

lemma keyLess_hexKey: "keyLess a b \<Longrightarrow> keyLess (hexKey a) (hexKey b)"
proof (induction a b rule: keyLess.induct)
  case (4 a as b bs)
  then show ?case using byte_split_less [of a b] by auto
qed auto

lemma hexKey_nibbles: "x \<in> set (hexKey a) \<Longrightarrow> unat x < 16"
proof (induction a)
  case Nil
  then show ?case by simp
next
  case (Cons b a)
  have "unat (b div 16) < 16" "unat (b mod 16) < 16"
    using unsigned_less [of b, where 'a = nat] by (simp_all add: unat_div unat_mod div_less_iff_less_mult)
  with Cons show ?case by auto
qed

lemma diffIndex_Some:
  "diffIndex a k = Some d \<Longrightarrow>
     d \<le> length a \<and> d \<le> length k \<and> take d a = take d k
     \<and> (d < length a \<longrightarrow> d < length k \<and> a ! d \<noteq> k ! d)"
proof (induction a k arbitrary: d rule: diffIndex.induct)
  case (3 nibble ks b k)
  then show ?case by (cases "nibble = b") (auto split: if_splits)
qed auto

lemma diffIndex_less:
  "diffIndex a k = Some d \<Longrightarrow> d < length a \<Longrightarrow> keyLess (a @ r) k \<Longrightarrow> a ! d < k ! d"
proof (induction a k arbitrary: d rule: diffIndex.induct)
  case (3 nibble ks b k)
  then show ?case by (cases "nibble = b") (auto split: if_splits)
qed auto

lemma diffIndex_full:
  "diffIndex a k = Some (length a) \<Longrightarrow> keyLess (a @ r) k \<Longrightarrow> keyLess r (drop (length a) k)"
proof (induction a k rule: diffIndex.induct)
  case (3 nibble ks b k)
  then show ?case by (cases "nibble = b") (auto split: if_splits)
qed auto

lemma diffIndex_prefix:
  "length a \<le> length k \<Longrightarrow> take (length a) k = a \<Longrightarrow> diffIndex a k = Some (length a)"
proof (induction a k rule: diffIndex.induct)
  case (3 nibble ks b k)
  then show ?case by auto
qed auto

lemma elderSibling_Some: "elderSibling cs n = Some (j, c) \<Longrightarrow> j < n \<and> cs ! j = Some c"
  by (induction n) (auto split: option.splits)

lemma elderSibling_nearest:
  "i < n \<Longrightarrow> cs ! i = Some c \<Longrightarrow> (\<forall>j. i < j \<and> j < n \<longrightarrow> cs ! j = None) \<Longrightarrow>
     elderSibling cs n = Some (i, c)"
proof (induction n)
  case 0
  then show ?case by simp
next
  case (Suc n)
  show ?case
  proof (cases "i = n")
    case True
    with Suc.prems show ?thesis by simp
  next
    case False
    with Suc.prems have "cs ! n = None" "i < n" by auto
    with Suc show ?thesis by simp
  qed
qed

definition tidy :: "stNode \<Rightarrow> bool" where
  "tidy st = (case typ' st of
      branchNode \<Rightarrow> True
    | extNode \<Rightarrow> noChildren (tl (children st))
    | _ \<Rightarrow> noChildren (children st))"

lemma finishHash_result:
  "finishHash t st path blob internal = (st', evs) \<Longrightarrow>
     typ' st' = hashedNode \<and> children st' = children st \<and> key st' = []"
  by (auto simp: finishHash_def Let_def split: if_splits)

lemma hashChildren_noChildren:
  "hashChildren t cs i path = (None, cs', refs, evs) \<Longrightarrow> noChildren cs' \<and> length cs' = length cs"
proof (induction cs arbitrary: i cs' refs evs)
  case Nil
  then show ?case by (simp add: noChildren_def)
next
  case (Cons c cs)
  then show ?case
    by (cases c) (auto simp: noChildren_def split: prod.splits option.splits)
qed

lemma hash_sealed:
  assumes "hash t st path = (None, st', evs)" and "tidy st"
  shows "sealed st' \<and> length (children st') = length (children st)"
proof (cases st)
  case (StNode ty k v cs)
  show ?thesis
  proof (cases ty)
    case emptyNode
    with assms StNode show ?thesis by (auto simp: hash.simps sealed_def tidy_def)
  next
    case branchNode
    with assms StNode show ?thesis
      by (auto simp: hash_live sealed_def split: prod.splits option.splits
          dest!: finishHash_result hashChildren_noChildren)
  next
    case extNode
    with assms StNode show ?thesis
      by (cases cs; cases "hd cs")
        (auto simp: hash_live sealed_def tidy_def noChildren_def split: prod.splits option.splits
          dest!: finishHash_result)
  next
    case leafNode
    with assms StNode show ?thesis
      by (auto simp: hash_live sealed_def tidy_def split: prod.splits option.splits
          dest!: finishHash_result)
  next
    case hashedNode
    with assms StNode show ?thesis by (auto simp: hash.simps sealed_def tidy_def)
  qed
qed

lemma frontier_leaf [simp]:
  "frontier (StNode leafNode key' v cs) k = (length cs = 16 \<and> key' = k \<and> noChildren cs)"
  by (subst frontier.simps) simp

lemma frontier_ext [simp]:
  "frontier (StNode extNode key' v cs) k =
     (length cs = 16 \<and>
      (case cs of
         Some c # cs' \<Rightarrow> key' \<noteq> [] \<and> length key' \<le> length k \<and> take (length key') k = key'
            \<and> noChildren cs' \<and> frontier c (drop (length key') k)
       | _ \<Rightarrow> False))"
  by (subst frontier.simps) (simp split: list.splits option.splits)

lemma frontier_branch [simp]:
  "frontier (StNode branchNode key' v cs) k =
     (length cs = 16 \<and>
      (case k of
         [] \<Rightarrow> False
       | k0 # krest \<Rightarrow> unat k0 < 16
           \<and> list_all (\<lambda>c. case c of None \<Rightarrow> True | Some c' \<Rightarrow> sealed c') (take (unat k0) cs)
           \<and> noChildren (drop (Suc (unat k0)) cs)
           \<and> (case cs ! unat k0 of Some c \<Rightarrow> frontier c krest | None \<Rightarrow> False)))"
  by (subst frontier.simps) (auto split: list.splits)

lemma frontier_other [simp]:
  "\<not> frontier (StNode emptyNode key' v cs) k"
  "\<not> frontier (StNode hashedNode key' v cs) k"
  by (subst frontier.simps, simp)+

lemma frontier_tidy: "frontier st k \<Longrightarrow> tidy st \<and> typ' st \<noteq> hashedNode \<and> length (children st) = 16"
  by (cases st; cases "typ' st") (auto simp: tidy_def split: list.splits option.splits)

lemma noChildren_replicate [simp]: "noChildren (replicate n None)"
  by (simp add: noChildren_def list_all_iff)

lemma noChildren_nth: "noChildren cs \<Longrightarrow> i < length cs \<Longrightarrow> cs ! i = None"
  by (simp add: noChildren_def list_all_length)

text \<open>A branch that holds a finished node in one slot, a new leaf in a slot to the right
  of it, and nothing else.\<close>

lemma two_children_frontier:
  assumes "noChildren cs" "length cs = 16" "orig < new" "new < 16" "sealed n" "unat k0 = new"
  shows "frontier (StNode branchNode key' v' (cs[orig := Some n, new := Some (newLeaf kr v)])) (k0 # kr)"
proof -
  let ?cs = "cs[orig := Some n, new := Some (newLeaf kr v)]"
  have nth: "?cs ! j = (if j = new then Some (newLeaf kr v) else if j = orig then Some n else None)"
    if "j < 16" for j
    using that assms noChildren_nth [of cs j] by (auto simp: nth_list_update)
  have 1: "list_all (\<lambda>c. case c of None \<Rightarrow> True | Some c' \<Rightarrow> sealed c') (take new ?cs)"
    unfolding list_all_length
  proof (intro allI impI)
    fix j assume "j < length (take new ?cs)"
    then have j: "j < new" by simp
    then have "take new ?cs ! j = ?cs ! j" by (rule nth_take)
    with nth [of j] j assms
    show "case take new ?cs ! j of None \<Rightarrow> True | Some c' \<Rightarrow> sealed c'" by auto
  qed
  have 2: "noChildren (drop (Suc new) ?cs)"
    unfolding noChildren_def list_all_length
  proof (intro allI impI)
    fix j assume "j < length (drop (Suc new) ?cs)"
    then have j: "Suc new + j < 16" using assms by simp
    then have "drop (Suc new) ?cs ! j = ?cs ! (Suc new + j)" using assms by (intro nth_drop) simp
    with nth [of "Suc new + j"] j assms
    show "drop (Suc new) ?cs ! j = None" by auto
  qed
  have 3: "?cs ! new = Some (newLeaf kr v)" using nth assms by simp
  show ?thesis
    using 1 2 3 assms by (simp add: newLeaf_def)
qed

lemma noChildren_tl: "noChildren cs \<Longrightarrow> noChildren (tl cs)"
  by (cases cs) (auto simp: noChildren_def)

lemma noChildren_clear0: "noChildren (tl cs) \<Longrightarrow> noChildren (cs[0 := None])"
  by (cases cs) (auto simp: noChildren_def)

lemma assemble_frontier:
  assumes cs: "length cs = 16" "noChildren (tl cs)"
    and d: "d < length K" "d < length k'" "take d K = take d k'" "K ! d < k' ! d"
    and n: "sealed n"
    and pl: "placeChildren (branchOf (StNode ty K vl cs) d) (unat (K ! d)) n (unat (k' ! d))
               (newLeaf (drop (d + 1) k') v) = (None, p')"
    and wb: "withBranch (StNode ty K vl cs) d p' = StNode ty' k'' v' cs'"
  shows "frontier (StNode ty' (take d k'') v'' cs') k'"
proof -
  let ?orig = "unat (K ! d)" and ?new = "unat (k' ! d)"
  have lt: "?orig < ?new" using d(4) by (simp add: word_less_nat_alt)
  have k': "drop d k' = (k' ! d) # drop (Suc d) k'"
    using d(2) by (simp add: Cons_nth_drop_Suc)
  show ?thesis
  proof (cases "d = 0")
    case True
    from pl True cs have new: "?new < 16"
      and p': "p' = StNode branchNode K vl (cs[0 := None, ?orig := Some n, ?new := Some (newLeaf (drop 1 k') v)])"
      by (auto simp: placeChildren_def branchOf_def setChild_def split: if_splits)
    from wb True p' have eq: "ty' = branchNode" "cs' = cs[0 := None, ?orig := Some n, ?new := Some (newLeaf (drop 1 k') v)]"
      by (auto simp: withBranch_def)
    have "frontier (StNode branchNode (take d k'') v'' (cs[0 := None, ?orig := Some n, ?new := Some (newLeaf (drop 1 k') v)]))
        ((k' ! d) # drop 1 k')"
      using cs lt new n True noChildren_clear0 [OF cs(2)]
      by (intro two_children_frontier) auto
    with k' True eq show ?thesis by simp
  next
    case False
    from pl False have new: "?new < 16"
      and p': "p' = StNode branchNode [] [] ((replicate 16 None)[?orig := Some n, ?new := Some (newLeaf (drop (Suc d) k') v)])"
      by (auto simp: placeChildren_def branchOf_def setChild_def poolGet_def split: if_splits)
    from wb False have eq: "ty' = extNode" "k'' = K" "cs' = cs[0 := Some p']"
      by (auto simp: withBranch_def)
    have fp: "frontier p' ((k' ! d) # drop (Suc d) k')"
      unfolding p' using lt new n
      by (intro two_children_frontier) auto
    obtain x xs where cx: "cs = x # xs" using cs(1) by (cases cs) auto
    with cs have "noChildren xs" by simp
    moreover have "k' \<noteq> []" using d(2) by auto
    ultimately show ?thesis
      using fp k' cx d False cs(1) eq by (simp add: min_def)
  qed
qed

lemma tidy_newLeaf: "tidy (newLeaf k v)"
  by (simp add: tidy_def newLeaf_def)

lemma tidy_newExt: "tidy (newExt k c)"
  by (simp add: tidy_def newExt_def eval_nat_numeral noChildren_def)

lemma splitLeaf_frontier:
  assumes st: "typ' st = leafNode" "length (children st) = 16" "noChildren (children st)"
    and d: "d < length (key st)" "d < length k'" "take d (key st) = take d k'" "key st ! d < k' ! d"
    and s: "splitLeaf t st d k' v path = (None, st', evs)"
  shows "frontier st' k'"
proof -
  obtain K vl cs where stc: "st = StNode leafNode K vl cs"
    using st(1) by (cases st) auto
  let ?p = "branchOf st d" and ?orig = "unat (key st ! d)"
  from s obtain n p' where
    hl: "hash t (newLeaf (drop (d + 1) (key st)) (val st)) (path @ take (d + 1) (key st)) = (None, n, evs)"
    and pl: "placeChildren ?p ?orig n (unat (k' ! d)) (newLeaf (drop (d + 1) k') v) = (None, p')"
    and st': "st' = (case withBranch st d p' of StNode ty k'' v' cs' \<Rightarrow> StNode ty (take d k'') [] cs')"
    by (auto simp: splitLeaf_def Let_def split: if_splits prod.splits option.splits stNode.splits)
  from hash_sealed [OF hl tidy_newLeaf] have n: "sealed n" by simp
  obtain ty' k'' v' cs' where wb: "withBranch st d p' = StNode ty' k'' v' cs'"
    by (cases "withBranch st d p'") auto
  from assemble_frontier [OF _ _ d(1-4)[unfolded stc stNode.sel] n pl [unfolded stc stNode.sel] wb [unfolded stc], of "[]"]
    st stc noChildren_tl [of cs]
  have "frontier (StNode ty' (take d k'') [] cs') k'" by simp
  then show ?thesis by (simp only: st' wb stNode.case)
qed

lemma splitExt_frontier:
  assumes st: "typ' st = extNode" "children st = Some c # cs1" "length (children st) = 16"
      "noChildren cs1" "tidy c"
    and d: "d < length (key st)" "d < length k'" "take d (key st) = take d k'" "key st ! d < k' ! d"
    and s: "splitExt t st d k' v path = (None, st', evs)"
  shows "frontier st' k'"
proof -
  obtain K vl cs where stc: "st = StNode extNode K vl cs"
    using st(1) by (cases st) auto
  from s obtain st1 n p' where
    ho: "hashOriginal t st d path = (None, st1, n, evs)"
    and pl: "placeChildren (branchOf st d) (unat (key st ! d)) n (unat (k' ! d)) (newLeaf (drop (d + 1) k') v) = (None, p')"
    and st': "st' = (case withBranch st d p' of StNode ty k'' v' cs' \<Rightarrow> StNode ty (take d k'') v' cs')"
    by (auto simp: splitExt_def split: prod.splits option.splits stNode.splits)
  have n: "sealed n"
    using ho st(2,5) hash_sealed [of t "newExt (drop (d + 1) (key st)) (Some c)" _ n evs, OF _ tidy_newExt]
      hash_sealed [of t c _ n evs]
    by (auto simp: hashOriginal_def split: if_splits prod.splits)
  obtain ty' k'' v' cs' where wb: "withBranch st d p' = StNode ty' k'' v' cs'"
    by (cases "withBranch st d p'") auto
  from assemble_frontier [OF _ _ d(1-4)[unfolded stc stNode.sel] n pl [unfolded stc stNode.sel] wb [unfolded stc], of v']
    st stc
  have "frontier (StNode ty' (take d k'') v' cs') k'" by simp
  then show ?thesis by (simp only: st' wb stNode.case)
qed

lemma hashElder_sealed_left:
  assumes "list_all (\<lambda>c. case c of None \<Rightarrow> True | Some c' \<Rightarrow> sealed c') (take n (children st))"
    and "n \<le> length (children st)"
  shows "hashElder t st n path = (None, st, [])"
proof (cases "elderSibling (children st) n")
  case None
  with assms show ?thesis by (simp add: hashElder_def)
next
  case (Some a)
  obtain j c where a: "a = (j, c)" by (cases a)
  from elderSibling_Some [OF Some [unfolded a]] have j: "j < n" "children st ! j = Some c" by auto
  with assms have "sealed c"
    by (auto simp: list_all_length dest!: spec [of _ j])
  with Some a assms show ?thesis by (simp add: hashElder_def sealed_def)
qed

lemma insert_frontier:
  assumes "frontier st k" "keyLess k k'" "insert_st t st k' v path = (None, st', evs)"
  shows "frontier st' k'"
  using assms
proof (induction st arbitrary: k k' path st' evs rule: measure_induct_rule [of size])
  case (less st)
  obtain ty K vl cs where stc: "st = StNode ty K vl cs" by (cases st)
  show ?case
  proof (cases ty)
    case emptyNode
    with less.prems(1) stc show ?thesis by simp
  next
    case hashedNode
    with less.prems(1) stc show ?thesis by simp
  next
    case leafNode
    from less.prems(1) have f: "length cs = 16" "K = k" "noChildren cs"
      using stc leafNode by auto
    from less.prems(3) obtain d where di: "diffIndex K k' = Some d" and dl: "d < length K"
      and sp: "splitLeaf t st d k' v path = (None, st', evs)"
      by (subst (asm) insert_st.simps)
        (auto simp: stc leafNode getDiffIndex_def split: option.splits if_splits)
    from diffIndex_Some [OF di] dl have "d < length k'" "take d K = take d k'" by auto
    moreover from diffIndex_less [OF di dl, of "[]"] less.prems(2) f have "K ! d < k' ! d" by simp
    ultimately show ?thesis
      using splitLeaf_frontier [OF _ _ _ _ _ _ _ sp] stc leafNode f dl by simp
  next
    case extNode
    from less.prems(1) obtain c cs1 where f: "cs = Some c # cs1" "length cs = 16" "K \<noteq> []"
      "length K \<le> length k" "take (length K) k = K" "noChildren cs1"
      "frontier c (drop (length K) k)"
      using stc extNode by (auto split: list.splits option.splits)
    have kk: "k = K @ drop (length K) k" using f(5) by (metis append_take_drop_id)
    from less.prems(3) obtain d where di: "diffIndex K k' = Some d" and
      r: "(d = length K \<and> (\<exists>c'. insert_st t c (drop d k') v (path @ take d k') = (None, c', evs)
              \<and> st' = setChild st 0 (Some c')))
          \<or> (d \<noteq> length K \<and> splitExt t st d k' v path = (None, st', evs))"
      by (subst (asm) insert_st.simps)
        (auto simp: stc extNode f getDiffIndex_def split: option.splits if_splits prod.splits)
    from r show ?thesis
    proof (elim disjE conjE exE)
      fix c' assume d: "d = length K"
        and ins: "insert_st t c (drop d k') v (path @ take d k') = (None, c', evs)"
        and st': "st' = setChild st 0 (Some c')"
      have "keyLess (drop (length K) k) (drop (length K) k')"
        using diffIndex_full [of K k' "drop (length K) k"] di d kk less.prems(2) by simp
      moreover have "size c < size st" by (simp add: stc f)
      ultimately have "frontier c' (drop (length K) k')"
        using less.IH [OF _ f(7) _ ins [unfolded d]] by simp
      moreover from diffIndex_Some [OF di] d have "length K \<le> length k'" "take (length K) k' = K"
        by auto
      ultimately show ?thesis
        using f by (simp add: st' stc setChild_def extNode)
    next
      assume d: "d \<noteq> length K" and sp: "splitExt t st d k' v path = (None, st', evs)"
      from diffIndex_Some [OF di] d have dl: "d < length K" "d < length k'" "take d K = take d k'"
        by auto
      from diffIndex_less [OF di dl(1), of "drop (length K) k"] kk less.prems(2)
      have "K ! d < k' ! d" by simp
      with splitExt_frontier [OF _ _ _ _ _ _ _ _ _ sp, of c cs1] frontier_tidy [OF f(7)]
        stc extNode f dl
      show ?thesis by simp
    qed
  next
    case branchNode
    from less.prems(1) obtain k0 kr c where f: "k = k0 # kr" "length cs = 16" "unat k0 < 16"
      "list_all (\<lambda>c. case c of None \<Rightarrow> True | Some c' \<Rightarrow> sealed c') (take (unat k0) cs)"
      "noChildren (drop (Suc (unat k0)) cs)" "cs ! unat k0 = Some c" "frontier c kr"
      using stc branchNode by (auto split: list.splits option.splits)
    from less.prems(2) f obtain k0' kr' where k': "k' = k0' # kr'"
      and ord: "k0 < k0' \<or> (k0 = k0' \<and> keyLess kr kr')"
      by (cases k') auto
    from less.prems(3) obtain st1 evs1 where
      he: "hashElder t st (unat k0') path = (None, st1, evs1)" and lt: "unat k0' < 16" and
      r: "(cs ! unat k0' = None \<and> st' = setChild st1 (unat k0') (Some (newLeaf kr' v)))
          \<or> (\<exists>c2 c2' evs2. cs ! unat k0' = Some c2
                \<and> insert_st t c2 kr' v (path @ [k0']) = (None, c2', evs2)
                \<and> st' = setChild st1 (unat k0') (Some c2'))"
      by (subst (asm) insert_st.simps)
        (auto simp: stc branchNode k' f split: option.splits if_splits prod.splits)
    from ord show ?thesis
    proof
      assume "k0 < k0'"
      then have ult: "unat k0 < unat k0'" by (simp add: word_less_nat_alt)
      have right: "cs ! j = None" if "unat k0 < j" "j < 16" for j
        using f(5) noChildren_nth [of "drop (Suc (unat k0)) cs" "j - Suc (unat k0)"] that f(2)
        by simp
      have "elderSibling cs (unat k0') = Some (unat k0, c)"
        using elderSibling_nearest [OF ult f(6)] right lt by auto
      with he obtain c' where hc: "hash t c (path @ [of_nat (unat k0)]) = (None, c', evs1)"
        and st1: "st1 = setChild st (unat k0) (Some c')"
        using frontier_tidy [OF f(7)] lt
        by (auto simp: hashElder_def stc f split: if_splits prod.splits)
      from hash_sealed [OF hc] frontier_tidy [OF f(7)] have sc: "sealed c'" by simp
      from r right [OF ult lt] have st': "st' = setChild st1 (unat k0') (Some (newLeaf kr' v))"
        by auto
      let ?cs = "cs[unat k0 := Some c', unat k0' := Some (newLeaf kr' v)]"
      have eq: "st' = StNode branchNode K vl ?cs"
        by (simp add: st' st1 stc setChild_def branchNode)
      have 1: "list_all (\<lambda>c. case c of None \<Rightarrow> True | Some c' \<Rightarrow> sealed c') (take (unat k0') ?cs)"
        unfolding list_all_length
      proof (intro allI impI)
        fix j assume "j < length (take (unat k0') ?cs)"
        then have j: "j < unat k0'" by simp
        have tk: "take (unat k0') ?cs ! j = ?cs ! j" using j by (rule nth_take)
        have old: "j < unat k0 \<Longrightarrow> case cs ! j of None \<Rightarrow> True | Some c' \<Rightarrow> sealed c'"
          using f(4) f(2,3) by (auto simp: list_all_length dest!: spec [of _ j])
        show "case take (unat k0') ?cs ! j of None \<Rightarrow> True | Some c' \<Rightarrow> sealed c'"
          unfolding tk using j lt f(2) sc old right [of j]
          by (cases "j = unat k0"; cases "j < unat k0") (auto simp: nth_list_update)
      qed
      have 2: "noChildren (drop (Suc (unat k0')) ?cs)"
        unfolding noChildren_def list_all_length
      proof (intro allI impI)
        fix j assume "j < length (drop (Suc (unat k0')) ?cs)"
        then have j: "Suc (unat k0') + j < 16" using f(2) by simp
        then have "drop (Suc (unat k0')) ?cs ! j = ?cs ! (Suc (unat k0') + j)"
          using f(2) by (intro nth_drop) simp
        with right [of "Suc (unat k0') + j"] j ult f(2)
        show "drop (Suc (unat k0')) ?cs ! j = None" by (simp add: nth_list_update)
      qed
      have 3: "?cs ! unat k0' = Some (newLeaf kr' v)" using lt f(2) by simp
      show ?thesis
        using 1 2 3 lt f(2) by (simp add: eq k' newLeaf_def)
    next
      assume a: "k0 = k0' \<and> keyLess kr kr'"
      have "hashElder t st (unat k0') path = (None, st, [])"
        using hashElder_sealed_left [of "unat k0'" st t path] f a by (simp add: stc)
      with he have st1: "st1 = st" by simp
      from r f(6) a obtain c2' evs2 where ins: "insert_st t c kr' v (path @ [k0']) = (None, c2', evs2)"
        and st': "st' = setChild st (unat k0) (Some c2')"
        by (auto simp: st1)
      have "size c < size st"
        using size_nth_child [of "unat k0" st c] f by (simp add: stc)
      from less.IH [OF this f(7) _ ins] a have "frontier c2' kr'" by simp
      with f a show ?thesis
        by (simp add: st' stc setChild_def branchNode k')
    qed
  qed
qed

lemma Update_success:
  assumes "Update t key' v = (None, t', evs)"
  shows "v \<noteq> [] \<and> t' = t\<lparr>first := (if first t = None then Some (hexKey key') else first t),
            last' := Some (hexKey key'), root := root t'\<rparr>
     \<and> insert_st (t\<lparr>first := (if first t = None then Some (hexKey key') else first t),
            last' := Some (hexKey key')\<rparr>) (root t) (hexKey key') v [] = (None, root t', evs)"
  using assms
  by (auto simp: Update_def TryUpdate_def Let_def hexKey_def split: prod.splits option.splits if_splits)

lemma Update_frontier:
  assumes "Update t key' v = (None, t', evs)" and "frontier (root t) k" and "keyLess k (hexKey key')"
  shows "frontier (root t') (hexKey key')"
  using Update_success [OF assms(1)] insert_frontier [OF assms(2,3)] by blast

lemma Update_fresh:
  assumes "Update t key' v = (None, t', evs)" and "root t = poolGet"
  shows "frontier (root t') (hexKey key')"
proof -
  from Update_success [OF assms(1)] assms(2)
  have "root t' = StNode leafNode (hexKey key') v (replicate 16 None)"
    by (auto simp: insert_st.simps poolGet_def)
  then show ?thesis by simp
qed

lemma run_updates_frontier:
  "frontier (root t) (hexKey k0) \<Longrightarrow> increasing (k0 # map fst kvs) \<Longrightarrow>
   run t (updates kvs) = (None, t', evs) \<Longrightarrow>
   frontier (root t') (hexKey (List.last (k0 # map fst kvs)))"
proof (induction kvs arbitrary: t k0 evs)
  case Nil
  then show ?case by (simp add: updates_def)
next
  case (Cons kv kvs)
  obtain key' v where kv: "kv = (key', v)" by (cases kv)
  from Cons.prems(3) obtain t1 evs1 evs2 where u: "Update t key' v = (None, t1, evs1)"
    and r: "run t1 (updates kvs) = (None, t', evs2)"
    by (auto simp: updates_def kv perform_def split: prod.splits option.splits)
  from Cons.prems(2) have lt: "keyLess k0 key'" and inc: "increasing (key' # map fst kvs)"
    by (simp_all add: kv)
  from Update_frontier [OF u Cons.prems(1) keyLess_hexKey [OF lt]]
  have "frontier (root t1) (hexKey key')" .
  from Cons.IH [OF this inc r] show ?case by (simp add: kv)
qed

text \<open>C2. After every sequence of successful Updates with strictly increasing keys, from a
  new trie, the nodes that are not hashed are the nodes on one path from the root to the
  leaf of the key inserted last; in every branch on this path each slot to the left of the
  path is empty or holds a hashed node without children, and each slot to the right of it
  is empty. Every prefix of such a sequence is such a sequence, so this holds after each
  Update.\<close>

theorem frontier_invariant:
  assumes "increasing (map fst kvs)" and "kvs \<noteq> []"
    and "run (NewStackTrie hs opts) (updates kvs) = (None, t, evs)"
  shows "frontier (root t) (hexKey (fst (List.last kvs)))"
proof -
  from assms(2) obtain kv kvs' where kvs: "kvs = kv # kvs'" by (cases kvs) auto
  obtain key' v where kv: "kv = (key', v)" by (cases kv)
  from assms(3) obtain t1 evs1 evs2 where u: "Update (NewStackTrie hs opts) key' v = (None, t1, evs1)"
    and r: "run t1 (updates kvs') = (None, t, evs2)"
    by (auto simp: updates_def kvs kv perform_def split: prod.splits option.splits)
  have "frontier (root t1) (hexKey key')"
    using Update_fresh [OF u] by (simp add: NewStackTrie_def)
  from run_updates_frontier [OF this _ r] assms(1)
  have "frontier (root t) (hexKey (List.last (key' # map fst kvs')))"
    by (simp add: kvs kv)
  then show ?thesis
    by (auto simp: kvs kv last_map split: if_splits)
qed

theorem frontier_invariant_witness:
  "increasing (map fst [([0x10], [1]), ([0x12], [2]), ([0x20], [3 :: byte])])
   \<and> fst (run (NewStackTrie paddingHasher (Some sinkOptions))
         (updates [([0x10], [1]), ([0x12], [2]), ([0x20], [3])])) = None
   \<and> frontier (root (fst (snd (run (NewStackTrie paddingHasher (Some sinkOptions))
         (updates [([0x10], [1]), ([0x12], [2]), ([0x20], [3])]))))) [2, 0]"
proof -
  let ?kvs = "[([0x10], [1]), ([0x12], [2]), ([0x20], [3 :: byte])] :: (byte list \<times> byte list) list"
  let ?r = "run (NewStackTrie paddingHasher (Some sinkOptions)) (updates ?kvs)"
  have i: "increasing (map fst ?kvs)" by simp
  have n: "fst ?r = None" by code_simp
  then have r: "?r = (None, fst (snd ?r), snd (snd ?r))"
    by (cases ?r) auto
  have k: "hexKey (fst (List.last ?kvs)) = [2, 0]" by simp
  from frontier_invariant [OF i _ r] k have "frontier (root (fst (snd ?r))) [2, 0]" by simp
  with i n show ?thesis by blast
qed

subsection \<open>Updates that fail\<close>

lemma hashChildren_ok:
  "(\<And>c q. Some c \<in> set cs \<Longrightarrow> fst (hash t c q) = None) \<Longrightarrow> fst (hashChildren t cs i path) = None"
proof (induction cs arbitrary: i)
  case Nil
  then show ?case by simp
next
  case (Cons a cs)
  have rest: "fst (hashChildren t cs (Suc i) path) = None"
    using Cons by simp
  show ?case
  proof (cases a)
    case None
    with rest show ?thesis by (cases "hashChildren t cs (Suc i) path") auto
  next
    case (Some c)
    with Cons.prems [of c "path @ [of_nat i]"] rest show ?thesis
      by (cases "hashChildren t cs (Suc i) path"; cases "hash t c (path @ [of_nat i])")
        (auto split: option.splits)
  qed
qed

lemma frontier_children:
  assumes "frontier (StNode branchNode K vl cs) (k0 # kr)" and "Some c \<in> set cs"
  shows "sealed c \<or> (cs ! unat k0 = Some c \<and> frontier c kr)"
proof -
  from assms(2) obtain j where j: "j < length cs" "cs ! j = Some c"
    by (auto simp: in_set_conv_nth)
  from assms(1) have f: "length cs = 16" "unat k0 < 16"
    "list_all (\<lambda>c. case c of None \<Rightarrow> True | Some c' \<Rightarrow> sealed c') (take (unat k0) cs)"
    "noChildren (drop (Suc (unat k0)) cs)"
    by (auto split: option.splits)
  consider "j < unat k0" | "j = unat k0" | "unat k0 < j" by linarith
  then show ?thesis
  proof cases
    case 1
    with f j show ?thesis by (auto simp: list_all_length dest!: spec [of _ j])
  next
    case 2
    with assms(1) j show ?thesis by (auto split: option.splits)
  next
    case 3
    with f j have "j - Suc (unat k0) < length (drop (Suc (unat k0)) cs)" by simp
    from noChildren_nth [OF f(4) this] 3 f j have "cs ! j = None" by simp
    with j show ?thesis by simp
  qed
qed

lemma hash_frontier_ok: "frontier st k \<Longrightarrow> fst (hash t st path) = None"
proof (induction st arbitrary: k path rule: measure_induct_rule [of size])
  case (less st)
  obtain ty K vl cs where stc: "st = StNode ty K vl cs" by (cases st)
  show ?case
  proof (cases ty)
    case emptyNode
    with less.prems stc show ?thesis by simp
  next
    case hashedNode
    with less.prems stc show ?thesis by simp
  next
    case leafNode
    then show ?thesis by (simp add: stc hash_live split: prod.splits)
  next
    case extNode
    from less.prems obtain c cs1 where f: "cs = Some c # cs1" "frontier c (drop (length K) k)"
      using stc extNode by (auto split: list.splits option.splits)
    have "size c < size st" by (simp add: stc f)
    from less.IH [OF this f(2), of "path @ K"] show ?thesis
      by (auto simp: stc extNode f hash_live split: prod.splits option.splits)
  next
    case branchNode
    from less.prems obtain k0 kr where k: "k = k0 # kr"
      using stc branchNode by (cases k) auto
    have "fst (hash t c q) = None" if "Some c \<in> set cs" for c q
    proof -
      from frontier_children [OF less.prems [unfolded stc branchNode k] that]
      show ?thesis
      proof
        assume "sealed c"
        then show ?thesis by (simp add: sealed_def hash.simps)
      next
        assume a: "cs ! unat k0 = Some c \<and> frontier c kr"
        from that obtain j where "j < length (children st)" "children st ! j = Some c"
          by (auto simp: stc in_set_conv_nth)
        then have "size c < size st" by (rule size_nth_child)
        from less.IH [OF this, of kr q] a show ?thesis by blast
      qed
    qed
    then have "fst (hashChildren t cs 0 path) = None" by (rule hashChildren_ok)
    then show ?thesis
      by (auto simp: stc branchNode hash_live split: prod.splits option.splits)
  qed
qed

lemma diffIndex_None: "diffIndex a k' = None \<Longrightarrow> \<not> prefix a k'"
  by (induction a k' rule: diffIndex.induct) (auto split: if_splits)

lemma diffIndex_ge: "diffIndex a k' = Some d \<Longrightarrow> length a \<le> d \<Longrightarrow> prefix a k'"
  by (induction a k' arbitrary: d rule: diffIndex.induct) (auto split: if_splits)

lemma diffIndex_lt: "diffIndex a k' = Some d \<Longrightarrow> d < length a \<Longrightarrow> \<not> prefix a k'"
  by (induction a k' arbitrary: d rule: diffIndex.induct) (auto split: if_splits)

lemma hash_leaf_ok: "fst (hash t (newLeaf k v) p) = None"
  by (simp add: newLeaf_def hash_live split: prod.splits)

lemma splitLeaf_ok:
  assumes "length (children st) = 16" "unat (key st ! d) < 16" "unat (k' ! d) < 16"
  shows "fst (splitLeaf t st d k' v path) = None"
proof -
  have len: "length (children (branchOf st d)) = 16"
    using assms(1) by (simp add: branchOf_def poolGet_def)
  obtain n evs where hl: "hash t (newLeaf (drop (d + 1) (key st)) (val st)) (path @ take (d + 1) (key st))
      = (None, n, evs)"
    using hash_leaf_ok [of t "drop (d + 1) (key st)" "val st" "path @ take (d + 1) (key st)"]
    by (cases "hash t (newLeaf (drop (d + 1) (key st)) (val st)) (path @ take (d + 1) (key st))") auto
  show ?thesis
    using len assms(2,3) hl
    by (auto simp: splitLeaf_def Let_def placeChildren_def split: prod.splits stNode.splits)
qed

lemma newExt_children: "children (newExt k c) = c # replicate 15 None"
  by (simp add: newExt_def eval_nat_numeral)

lemma splitExt_ok:
  assumes "children st = Some c # cs1" "length (children st) = 16"
    and "\<And>q. fst (hash t c q) = None"
    and "unat (key st ! d) < 16" "unat (k' ! d) < 16"
  shows "fst (splitExt t st d k' v path) = None"
proof -
  have len: "length (children (branchOf st d)) = 16"
    using assms(2) by (simp add: branchOf_def poolGet_def)
  have ne: "fst (hash t (newExt kk (Some c)) q) = None" for kk q
    using assms(3) [of "q @ kk"]
    by (cases "hash t c (q @ kk)")
      (auto simp: newExt_def eval_nat_numeral hash_live split: prod.splits option.splits)
  have "fst (hashOriginal t st d path) = None"
  proof (cases "d < length (key st) - 1")
    case True
    with assms(1) ne [of "drop (d + 1) (key st)" "path @ take (d + 1) (key st)"] show ?thesis
      by (auto simp: hashOriginal_def split: prod.splits)
  next
    case False
    with assms(1) assms(3) [of "path @ key st"] show ?thesis
      by (auto simp: hashOriginal_def split: prod.splits)
  qed
  then obtain st1 n evs where "hashOriginal t st d path = (None, st1, n, evs)"
    by (cases "hashOriginal t st d path") auto
  with len assms(4,5) show ?thesis
    by (auto simp: splitExt_def placeChildren_def split: prod.splits stNode.splits)
qed

lemma prefix_drop_iff:
  assumes "length K \<le> length k" "take (length K) k = K" "length K \<le> length k'" "take (length K) k' = K"
  shows "prefix (drop (length K) k) (drop (length K) k') \<longleftrightarrow> prefix k k'"
proof -
  have "k = K @ drop (length K) k" "k' = K @ drop (length K) k'"
    using assms by (metis append_take_drop_id)+
  then show ?thesis by (metis same_prefix_prefix)
qed

lemma insert_outcome:
  assumes "frontier st k" "\<forall>x\<in>set k. unat x < 16" "\<forall>x\<in>set k'. unat x < 16"
    and "insert_st t st k' v path = (e, st', evs)"
  shows "(e = Some InsertIntoExistingKey \<longleftrightarrow> prefix k k') \<and> (e \<noteq> None \<longrightarrow> evs = [])"
  using assms
proof (induction st arbitrary: k k' path e st' evs rule: measure_induct_rule [of size])
  case (less st)
  obtain ty K vl cs where stc: "st = StNode ty K vl cs" by (cases st)
  note ins = less.prems(4)
  show ?case
  proof (cases ty)
    case emptyNode
    with less.prems(1) stc show ?thesis by simp
  next
    case hashedNode
    with less.prems(1) stc show ?thesis by simp
  next
    case leafNode
    from less.prems(1) have f: "length cs = 16" "K = k" "noChildren cs"
      using stc leafNode by auto
    show ?thesis
    proof (cases "diffIndex k k'")
      case None
      with ins diffIndex_None [OF None] show ?thesis
        by (subst (asm) insert_st.simps) (auto simp: stc leafNode f getDiffIndex_def)
    next
      case (Some d)
      show ?thesis
      proof (cases "length k \<le> d")
        case True
        with ins Some diffIndex_ge [OF Some True] show ?thesis
          by (subst (asm) insert_st.simps) (auto simp: stc leafNode f getDiffIndex_def)
      next
        case False
        with diffIndex_Some [OF Some] have d: "d < length k" "d < length k'" by auto
        from ins Some False have sp: "splitLeaf t st d k' v path = (e, st', evs)"
          by (subst (asm) insert_st.simps) (auto simp: stc leafNode f getDiffIndex_def)
        have "fst (splitLeaf t st d k' v path) = None"
          using d less.prems(2,3) f by (intro splitLeaf_ok) (auto simp: stc)
        with sp diffIndex_lt [OF Some d(1)] show ?thesis by simp
      qed
    qed
  next
    case extNode
    from less.prems(1) obtain c cs1 where f: "cs = Some c # cs1" "length cs = 16" "K \<noteq> []"
      "length K \<le> length k" "take (length K) k = K" "noChildren cs1"
      "frontier c (drop (length K) k)"
      using stc extNode by (auto split: list.splits option.splits)
    have pk: "prefix K k" using f(5) by (metis take_is_prefix)
    show ?thesis
    proof (cases "diffIndex K k'")
      case None
      from diffIndex_None [OF None] pk have "\<not> prefix k k'"
        by (meson prefix_order.trans)
      with ins None show ?thesis
        by (subst (asm) insert_st.simps) (auto simp: stc extNode f getDiffIndex_def)
    next
      case (Some d)
      show ?thesis
      proof (cases "d = length K")
        case True
        from ins Some True obtain c' where
          r: "insert_st t c (drop (length K) k') v (path @ take (length K) k') = (e, c', evs)"
          by (subst (asm) insert_st.simps)
            (auto simp: stc extNode f getDiffIndex_def split: prod.splits)
        have sz: "size c < size st" by (simp add: stc f)
        have v1: "\<forall>x\<in>set (drop (length K) k). unat x < 16"
          using less.prems(2) by (auto dest: in_set_dropD)
        have v2: "\<forall>x\<in>set (drop (length K) k'). unat x < 16"
          using less.prems(3) by (auto dest: in_set_dropD)
        from diffIndex_Some [OF Some] True have "length K \<le> length k'" "take (length K) k' = K"
          by auto
        with less.IH [OF sz f(7) v1 v2 r] prefix_drop_iff [OF f(4,5)]
        show ?thesis by simp
      next
        case False
        with diffIndex_Some [OF Some] have d: "d < length K" "d < length k'" by auto
        from ins Some False have sp: "splitExt t st d k' v path = (e, st', evs)"
          by (subst (asm) insert_st.simps) (auto simp: stc extNode f getDiffIndex_def)
        have "K ! d = k ! d" using f(5) d(1) by (metis nth_take)
        then have "unat (K ! d) < 16" using less.prems(2) d(1) f(4) by simp
        then have "fst (splitExt t st d k' v path) = None"
          using d less.prems(3) f hash_frontier_ok [OF f(7)]
          by (intro splitExt_ok [of st c cs1]) (auto simp: stc)
        moreover from diffIndex_lt [OF Some d(1)] pk have "\<not> prefix k k'"
          by (meson prefix_order.trans)
        ultimately show ?thesis using sp by simp
      qed
    qed
  next
    case branchNode
    from less.prems(1) obtain k0 kr c where f: "k = k0 # kr" "length cs = 16" "unat k0 < 16"
      "list_all (\<lambda>c. case c of None \<Rightarrow> True | Some c' \<Rightarrow> sealed c') (take (unat k0) cs)"
      "noChildren (drop (Suc (unat k0)) cs)" "cs ! unat k0 = Some c" "frontier c kr"
      using stc branchNode by (auto split: list.splits option.splits)
    show ?thesis
    proof (cases k')
      case Nil
      with ins show ?thesis
        by (subst (asm) insert_st.simps) (auto simp: stc branchNode f)
    next
      case (Cons k0' kr')
      from less.prems(3) Cons have lt: "unat k0' < 16" by simp
      consider "unat k0 < unat k0'" | "unat k0' < unat k0" | "k0' = k0"
        by (metis linorder_neqE_nat word_unat_eq_iff)
      then show ?thesis
      proof cases
        case 1
        have right: "cs ! j = None" if "unat k0 < j" "j < 16" for j
          using f(5) noChildren_nth [of "drop (Suc (unat k0)) cs" "j - Suc (unat k0)"] that f(2)
          by simp
        have "elderSibling cs (unat k0') = Some (unat k0, c)"
          using elderSibling_nearest [OF 1 f(6)] right lt by auto
        moreover obtain c' evs1 where "hash t c (path @ [of_nat (unat k0)]) = (None, c', evs1)"
          using hash_frontier_ok [OF f(7), of t "path @ [of_nat (unat k0)]"]
          by (cases "hash t c (path @ [of_nat (unat k0)])") auto
        ultimately have "hashElder t st (unat k0') path = (None, setChild st (unat k0) (Some c'), evs1)"
          using frontier_tidy [OF f(7)] lt f(2) by (simp add: hashElder_def stc)
        with ins right [OF 1 lt] lt f(2) have "e = None"
          by (subst (asm) insert_st.simps) (auto simp: stc branchNode Cons)
        moreover from 1 have "k0 \<noteq> k0'" by auto
        ultimately show ?thesis by (simp add: f Cons)
      next
        case 2
        have "list_all (\<lambda>c. case c of None \<Rightarrow> True | Some c' \<Rightarrow> sealed c') (take (unat k0') cs)"
          using f(4) 2 by (auto simp: list_all_length)
        then have he: "hashElder t st (unat k0') path = (None, st, [])"
          using hashElder_sealed_left [of "unat k0'" st t path] lt f(2) by (simp add: stc)
        have slot: "cs ! unat k0' = None \<or> (\<exists>c2. cs ! unat k0' = Some c2 \<and> typ' c2 = hashedNode)"
          using f(4) 2 f(2,3) by (auto simp: list_all_length sealed_def split: option.splits dest!: spec [of _ "unat k0'"])
        from 2 have ne: "k0 \<noteq> k0'" by auto
        from slot show ?thesis
        proof (elim disjE exE conjE)
          assume "cs ! unat k0' = None"
          with ins he lt f(2) have "e = None"
            by (subst (asm) insert_st.simps) (auto simp: stc branchNode Cons)
          with ne show ?thesis by (simp add: f Cons)
        next
          fix c2 assume c2: "cs ! unat k0' = Some c2" "typ' c2 = hashedNode"
          then have "insert_st t c2 kr' v (path @ [k0']) = (Some InsertIntoHash, c2, [])"
            by (subst insert_st.simps) simp
          with ins he lt f(2) c2 have "e = Some InsertIntoHash" "evs = []"
            by (subst (asm) insert_st.simps, auto simp: stc branchNode Cons)+
          with ne show ?thesis by (simp add: f Cons)
        qed
      next
        case 3
        have he: "hashElder t st (unat k0') path = (None, st, [])"
          using hashElder_sealed_left [of "unat k0'" st t path] f 3 by (simp add: stc)
        from ins he lt f(2,6) 3 obtain c' where
          r: "insert_st t c kr' v (path @ [k0']) = (e, c', evs)"
          by (subst (asm) insert_st.simps) (auto simp: stc branchNode Cons split: prod.splits)
        have sz: "size c < size st"
          using size_nth_child [of "unat k0" st c] f by (simp add: stc)
        from less.IH [OF sz f(7) _ _ r] less.prems(2,3) 3 show ?thesis
          by (simp add: f Cons)
      qed
    qed
  qed
qed

function present :: "stNode \<Rightarrow> byte list \<Rightarrow> bool" where
  "present st k =
     (case typ' st of
        hashedNode \<Rightarrow> True
      | leafNode \<Rightarrow> key st = k
      | extNode \<Rightarrow>
          (case children st of
             Some c # cs \<Rightarrow>
               length (key st) \<le> length k \<and> take (length (key st)) k = key st
               \<and> present c (drop (length (key st)) k)
           | _ \<Rightarrow> False)
      | branchNode \<Rightarrow>
          (case k of
             [] \<Rightarrow> False
           | k0 # krest \<Rightarrow>
               if unat k0 < length (children st)
               then (case children st ! unat k0 of Some c \<Rightarrow> present c krest | None \<Rightarrow> False)
               else False)
      | emptyNode \<Rightarrow> False)"
  by pat_completeness auto
termination
proof (relation "measure (\<lambda>(st, k). size st)")
  show "wf (measure (\<lambda>(st, k). size st))" by simp
next
  fix st :: stNode and k :: "byte list" and x21 :: "stNode option"
    and x22 :: "stNode option list" and x2 :: stNode
  assume "children st = x21 # x22" "x21 = Some x2"
  then show "((x2, drop (length (key st)) k), st, k) \<in> measure (\<lambda>(st, k). size st)"
    by (cases st) simp
next
  fix st :: stNode and k :: "byte list" and x21 :: byte and x22 :: "byte list" and x2 :: stNode
  assume "unat x21 < length (children st)" "children st ! unat x21 = Some x2"
  then show "((x2, x22), st, k) \<in> measure (\<lambda>(st, k). size st)"
    using size_child_nth [of "unat x21" "children st" x2] by (cases st) simp
qed

declare present.simps [simp del]

lemma present_hashed [simp]: "present (StNode hashedNode K vl cs) k"
  by (subst present.simps) simp

lemma present_leaf [simp]: "present (StNode leafNode K vl cs) k = (K = k)"
  by (subst present.simps) simp

lemma present_empty [simp]: "\<not> present (StNode emptyNode K vl cs) k"
  by (subst present.simps) simp

lemma present_ext [simp]:
  "present (StNode extNode K vl cs) k =
     (case cs of
        Some c # cs' \<Rightarrow> length K \<le> length k \<and> take (length K) k = K \<and> present c (drop (length K) k)
      | _ \<Rightarrow> False)"
  by (subst present.simps) (simp split: list.splits option.splits)

lemma present_branch [simp]:
  "present (StNode branchNode K vl cs) k =
     (case k of
        [] \<Rightarrow> False
      | k0 # krest \<Rightarrow> unat k0 < length cs
          \<and> (case cs ! unat k0 of Some c \<Rightarrow> present c krest | None \<Rightarrow> False))"
  by (subst present.simps) (auto split: list.splits option.splits)

lemma right_None: "noChildren (drop (Suc n) cs) \<Longrightarrow> n < j \<Longrightarrow> j < length cs \<Longrightarrow> cs ! j = None"
  using noChildren_nth [of "drop (Suc n) cs" "j - Suc n"] by simp

lemma sealed_present: "sealed c \<Longrightarrow> present c k"
  by (cases c) (simp add: sealed_def)

lemma frontier_present: "frontier st k \<Longrightarrow> present st k"
proof (induction st arbitrary: k rule: measure_induct_rule [of size])
  case (less st)
  obtain ty K vl cs where stc: "st = StNode ty K vl cs" by (cases st)
  show ?case
  proof (cases ty)
    case extNode
    from less.prems obtain c cs1 where f: "cs = Some c # cs1" "frontier c (drop (length K) k)"
      "length K \<le> length k" "take (length K) k = K"
      using stc extNode by (auto split: list.splits option.splits)
    have "size c < size st" by (simp add: stc f)
    from less.IH [OF this f(2)] f show ?thesis by (simp add: stc extNode)
  next
    case branchNode
    from less.prems obtain k0 kr c where f: "k = k0 # kr" "length cs = 16" "unat k0 < 16"
      "cs ! unat k0 = Some c" "frontier c kr"
      using stc branchNode by (auto split: list.splits option.splits)
    have "size c < size st"
      using size_nth_child [of "unat k0" st c] f by (simp add: stc)
    from less.IH [OF this f(5)] f show ?thesis by (simp add: stc branchNode)
  qed (use less.prems stc in auto)
qed

text \<open>An insertion of a key that is in the trie fails.\<close>

lemma insert_present_fails:
  assumes "frontier st k" "present st kj"
  shows "fst (insert_st t st kj v path) \<noteq> None"
  using assms
proof (induction st arbitrary: k kj path rule: measure_induct_rule [of size])
  case (less st)
  obtain ty K vl cs where stc: "st = StNode ty K vl cs" by (cases st)
  show ?case
  proof (cases ty)
    case emptyNode
    with less.prems(1) stc show ?thesis by simp
  next
    case hashedNode
    with less.prems(1) stc show ?thesis by simp
  next
    case leafNode
    with less.prems(2) stc have "K = kj" by simp
    then have "diffIndex K kj = Some (length K)" by (simp add: diffIndex_prefix)
    then show ?thesis
      by (subst insert_st.simps) (simp add: stc leafNode getDiffIndex_def)
  next
    case extNode
    from less.prems obtain c cs1 where f: "cs = Some c # cs1" "frontier c (drop (length K) k)"
      "length K \<le> length kj" "take (length K) kj = K" "present c (drop (length K) kj)"
      using stc extNode by (auto split: list.splits option.splits)
    have di: "diffIndex K kj = Some (length K)" using f by (simp add: diffIndex_prefix)
    have "size c < size st" by (simp add: stc f)
    from less.IH [OF this f(2,5), of "path @ take (length K) kj"] di show ?thesis
      by (subst insert_st.simps)
        (auto simp: stc extNode f getDiffIndex_def split: prod.splits)
  next
    case branchNode
    from less.prems(1) obtain k0 kr c where f: "k = k0 # kr" "length cs = 16" "unat k0 < 16"
      "list_all (\<lambda>c. case c of None \<Rightarrow> True | Some c' \<Rightarrow> sealed c') (take (unat k0) cs)"
      "noChildren (drop (Suc (unat k0)) cs)" "cs ! unat k0 = Some c" "frontier c kr"
      using stc branchNode by (auto split: list.splits option.splits)
    from less.prems(2) obtain i krj ci where g: "kj = i # krj" "unat i < 16" "cs ! unat i = Some ci"
      "present ci krj"
      using stc branchNode f(2) by (auto split: list.splits option.splits)
    have le: "unat i \<le> unat k0"
    proof (rule ccontr)
      assume "\<not> unat i \<le> unat k0"
      with g f(2) right_None [OF f(5), of "unat i"] show False by simp
    qed
    have "list_all (\<lambda>c. case c of None \<Rightarrow> True | Some c' \<Rightarrow> sealed c') (take (unat i) cs)"
      using f(4) le by (auto simp: list_all_length)
    then have he: "hashElder t st (unat i) path = (None, st, [])"
      using hashElder_sealed_left [of "unat i" st t path] g f(2) by (simp add: stc)
    have "fst (insert_st t ci krj v (path @ [i])) \<noteq> None"
    proof (cases "unat i = unat k0")
      case True
      with f g have "ci = c" by simp
      moreover have "size c < size st"
        using size_nth_child [of "unat k0" st c] f by (simp add: stc)
      ultimately show ?thesis using less.IH [of c kr krj "path @ [i]"] f(7) g(4) by simp
    next
      case False
      with le f(2,3,4) g have "sealed ci"
        by (auto simp: list_all_length dest!: spec [of _ "unat i"])
      then show ?thesis by (subst insert_st.simps) (simp add: sealed_def)
    qed
    with he g f(2) show ?thesis
      by (subst insert_st.simps) (auto simp: stc branchNode split: prod.splits)
  qed
qed

lemma assemble_present:
  assumes cs: "length cs = 16"
    and d: "d < length K" "d < length k'" "K ! d < k' ! d"
    and n: "sealed n"
    and pl: "placeChildren (branchOf (StNode ty K vl cs) d) (unat (K ! d)) n (unat (k' ! d))
               (newLeaf (drop (d + 1) k') v) = (None, p')"
    and wb: "withBranch (StNode ty K vl cs) d p' = StNode ty' k'' v' cs'"
    and kj: "Suc d \<le> length kj" "take (Suc d) kj = take (Suc d) K"
  shows "present (StNode ty' (take d k'') v'' cs') kj"
proof -
  let ?orig = "unat (K ! d)" and ?new = "unat (k' ! d)"
  have lt: "?orig < ?new" using d(3) by (simp add: word_less_nat_alt)
  have kjd: "drop d kj = (K ! d) # drop (Suc d) kj"
  proof -
    have "kj ! d = K ! d" using kj d(1) by (metis lessI nth_take)
    moreover have "drop d kj = kj ! d # drop (Suc d) kj"
      using kj(1) by (intro Cons_nth_drop_Suc [symmetric]) simp
    ultimately show ?thesis by simp
  qed
  have tk: "take d kj = take d K"
    using kj(2) by (metis le_add2 plus_1_eq_Suc take_take min.absorb1)
  show ?thesis
  proof (cases "d = 0")
    case True
    from pl True cs have new: "?new < 16"
      and p': "p' = StNode branchNode K vl (cs[0 := None, ?orig := Some n, ?new := Some (newLeaf (drop 1 k') v)])"
      by (auto simp: placeChildren_def branchOf_def setChild_def split: if_splits)
    from wb True p' have eq: "ty' = branchNode" "cs' = cs[0 := None, ?orig := Some n, ?new := Some (newLeaf (drop 1 k') v)]"
      by (auto simp: withBranch_def)
    have "cs' ! ?orig = Some n" using lt new cs by (simp add: eq)
    with lt new cs sealed_present [OF n]
    have "present (StNode ty' (take d k'') v'' cs') (K ! d # drop (Suc d) kj)"
      by (simp add: eq)
    then have "present (StNode ty' (take d k'') v'' cs') (drop d kj)"
      by (simp only: kjd)
    with True show ?thesis by simp
  next
    case False
    from pl False have new: "?new < 16"
      and p': "p' = StNode branchNode [] [] ((replicate 16 None)[?orig := Some n, ?new := Some (newLeaf (drop (Suc d) k') v)])"
      by (auto simp: placeChildren_def branchOf_def setChild_def poolGet_def split: if_splits)
    from wb False have eq: "ty' = extNode" "k'' = K" "cs' = cs[0 := Some p']"
      by (auto simp: withBranch_def)
    have "((replicate 16 None)[?orig := Some n, ?new := Some (newLeaf (drop (Suc d) k') v)]) ! ?orig = Some n"
      using lt new by simp
    with lt new sealed_present [OF n] have pp: "present p' (K ! d # drop (Suc d) kj)"
      by (simp add: p')
    obtain x xs where cx: "cs = x # xs" using cs(1) by (cases cs) auto
    from pp have "present p' (drop d kj)" by (simp only: kjd)
    with tk kj(1) d(1) show ?thesis
      by (simp add: eq cx min_def)
  qed
qed

lemma splitLeaf_present:
  assumes st: "typ' st = leafNode" "length (children st) = 16"
    and d: "d < length (key st)" "d < length k'" "key st ! d < k' ! d"
    and s: "splitLeaf t st d k' v path = (None, st', evs)"
  shows "present st' (key st)"
proof -
  obtain K vl cs where stc: "st = StNode leafNode K vl cs"
    using st(1) by (cases st) auto
  from s obtain n p' where
    hl: "hash t (newLeaf (drop (d + 1) (key st)) (val st)) (path @ take (d + 1) (key st)) = (None, n, evs)"
    and pl: "placeChildren (branchOf st d) (unat (key st ! d)) n (unat (k' ! d)) (newLeaf (drop (d + 1) k') v) = (None, p')"
    and st': "st' = (case withBranch st d p' of StNode ty k'' v' cs' \<Rightarrow> StNode ty (take d k'') [] cs')"
    by (auto simp: splitLeaf_def Let_def split: if_splits prod.splits option.splits stNode.splits)
  from hash_sealed [OF hl tidy_newLeaf] have n: "sealed n" by simp
  obtain ty' k'' v' cs' where wb: "withBranch st d p' = StNode ty' k'' v' cs'"
    by (cases "withBranch st d p'") auto
  from assemble_present [OF _ d(1-3)[unfolded stc stNode.sel] n pl [unfolded stc stNode.sel] wb [unfolded stc], of K "[]"]
    st stc d(1)
  have "present (StNode ty' (take d k'') [] cs') (key st)" by simp
  then show ?thesis by (simp only: st' wb stNode.case)
qed

lemma splitExt_present:
  assumes st: "typ' st = extNode" "children st = Some c # cs1" "length (children st) = 16" "tidy c"
    and d: "d < length (key st)" "d < length k'" "key st ! d < k' ! d"
    and s: "splitExt t st d k' v path = (None, st', evs)"
    and kj: "length (key st) \<le> length kj" "take (length (key st)) kj = key st"
  shows "present st' kj"
proof -
  obtain K vl cs where stc: "st = StNode extNode K vl cs"
    using st(1) by (cases st) auto
  from s obtain st1 n p' where
    ho: "hashOriginal t st d path = (None, st1, n, evs)"
    and pl: "placeChildren (branchOf st d) (unat (key st ! d)) n (unat (k' ! d)) (newLeaf (drop (d + 1) k') v) = (None, p')"
    and st': "st' = (case withBranch st d p' of StNode ty k'' v' cs' \<Rightarrow> StNode ty (take d k'') v' cs')"
    by (auto simp: splitExt_def split: prod.splits option.splits stNode.splits)
  have n: "sealed n"
    using ho st(2,4) hash_sealed [of t "newExt (drop (d + 1) (key st)) (Some c)" _ n evs, OF _ tidy_newExt]
      hash_sealed [of t c _ n evs]
    by (auto simp: hashOriginal_def split: if_splits prod.splits)
  obtain ty' k'' v' cs' where wb: "withBranch st d p' = StNode ty' k'' v' cs'"
    by (cases "withBranch st d p'") auto
  have t1: "take (Suc d) kj = take (Suc d) K"
    using kj d(1) by (metis Suc_leI stc stNode.sel(2) take_take min.absorb1)
  from assemble_present [OF _ d(1-3)[unfolded stc stNode.sel] n pl [unfolded stc stNode.sel] wb [unfolded stc] _ t1, of v']
    st stc d(1) kj(1)
  have "present (StNode ty' (take d k'') v' cs') kj" by simp
  then show ?thesis by (simp only: st' wb stNode.case)
qed

lemma insert_present:
  assumes "frontier st k" "present st kj" "keyLess k k'" "insert_st t st k' v path = (None, st', evs)"
  shows "present st' kj"
  using assms
proof (induction st arbitrary: k kj k' path st' evs rule: measure_induct_rule [of size])
  case (less st)
  obtain ty K vl cs where stc: "st = StNode ty K vl cs" by (cases st)
  note ins = less.prems(4)
  show ?case
  proof (cases ty)
    case emptyNode
    with less.prems(1) stc show ?thesis by simp
  next
    case hashedNode
    with less.prems(1) stc show ?thesis by simp
  next
    case leafNode
    from less.prems(1,2) have f: "length cs = 16" "K = k" "kj = K"
      using stc leafNode by auto
    from ins obtain d where di: "diffIndex K k' = Some d" and dl: "d < length K"
      and sp: "splitLeaf t st d k' v path = (None, st', evs)"
      by (subst (asm) insert_st.simps)
        (auto simp: stc leafNode getDiffIndex_def split: option.splits if_splits)
    from diffIndex_Some [OF di] dl have "d < length k'" by auto
    moreover from diffIndex_less [OF di dl, of "[]"] less.prems(3) f have "K ! d < k' ! d" by simp
    ultimately show ?thesis
      using splitLeaf_present [OF _ _ _ _ _ sp] stc leafNode f dl by simp
  next
    case extNode
    from less.prems(1) obtain c cs1 where f: "cs = Some c # cs1" "length cs = 16" "K \<noteq> []"
      "length K \<le> length k" "take (length K) k = K" "noChildren cs1"
      "frontier c (drop (length K) k)"
      using stc extNode by (auto split: list.splits option.splits)
    from less.prems(2) have g: "length K \<le> length kj" "take (length K) kj = K"
      "present c (drop (length K) kj)"
      using stc extNode f(1) by auto
    have kk: "k = K @ drop (length K) k" using f(5) by (metis append_take_drop_id)
    from ins obtain d where di: "diffIndex K k' = Some d" and
      r: "(d = length K \<and> (\<exists>c'. insert_st t c (drop d k') v (path @ take d k') = (None, c', evs)
              \<and> st' = setChild st 0 (Some c')))
          \<or> (d \<noteq> length K \<and> splitExt t st d k' v path = (None, st', evs))"
      by (subst (asm) insert_st.simps)
        (auto simp: stc extNode f getDiffIndex_def split: option.splits if_splits prod.splits)
    from r show ?thesis
    proof (elim disjE conjE exE)
      fix c' assume d: "d = length K"
        and ins': "insert_st t c (drop d k') v (path @ take d k') = (None, c', evs)"
        and st': "st' = setChild st 0 (Some c')"
      have "keyLess (drop (length K) k) (drop (length K) k')"
        using diffIndex_full [of K k' "drop (length K) k"] di d kk less.prems(3) by simp
      moreover have "size c < size st" by (simp add: stc f)
      ultimately have "present c' (drop (length K) kj)"
        using less.IH [OF _ f(7) g(3) _ ins' [unfolded d]] by simp
      with g show ?thesis
        by (simp add: st' stc setChild_def extNode f)
    next
      assume d: "d \<noteq> length K" and sp: "splitExt t st d k' v path = (None, st', evs)"
      from diffIndex_Some [OF di] d have dl: "d < length K" "d < length k'" by auto
      from diffIndex_less [OF di dl(1), of "drop (length K) k"] kk less.prems(3)
      have "K ! d < k' ! d" by simp
      with splitExt_present [OF _ _ _ _ _ _ _ sp, of c cs1 kj] frontier_tidy [OF f(7)]
        stc extNode f dl g
      show ?thesis by simp
    qed
  next
    case branchNode
    from less.prems(1) obtain k0 kr c where f: "k = k0 # kr" "length cs = 16" "unat k0 < 16"
      "list_all (\<lambda>c. case c of None \<Rightarrow> True | Some c' \<Rightarrow> sealed c') (take (unat k0) cs)"
      "noChildren (drop (Suc (unat k0)) cs)" "cs ! unat k0 = Some c" "frontier c kr"
      using stc branchNode by (auto split: list.splits option.splits)
    from less.prems(2) obtain i krj ci where g: "kj = i # krj" "unat i < 16" "cs ! unat i = Some ci"
      "present ci krj"
      using stc branchNode f(2) by (auto split: list.splits option.splits)
    have le: "unat i \<le> unat k0"
    proof (rule ccontr)
      assume "\<not> unat i \<le> unat k0"
      with g f(2) right_None [OF f(5), of "unat i"] show False by simp
    qed
    from less.prems(3) f obtain k0' kr' where k': "k' = k0' # kr'"
      and ord: "k0 < k0' \<or> (k0 = k0' \<and> keyLess kr kr')"
      by (cases k') auto
    from ins obtain st1 evs1 where
      he: "hashElder t st (unat k0') path = (None, st1, evs1)" and lt: "unat k0' < 16" and
      r: "(cs ! unat k0' = None \<and> st' = setChild st1 (unat k0') (Some (newLeaf kr' v)))
          \<or> (\<exists>c2 c2' evs2. cs ! unat k0' = Some c2
                \<and> insert_st t c2 kr' v (path @ [k0']) = (None, c2', evs2)
                \<and> st' = setChild st1 (unat k0') (Some c2'))"
      by (subst (asm) insert_st.simps)
        (auto simp: stc branchNode k' f split: option.splits if_splits prod.splits)
    from ord show ?thesis
    proof
      assume "k0 < k0'"
      then have ult: "unat k0 < unat k0'" by (simp add: word_less_nat_alt)
      have "elderSibling cs (unat k0') = Some (unat k0, c)"
        using elderSibling_nearest [OF ult f(6)] right_None [OF f(5)] lt f(2) by auto
      with he obtain c' where hc: "hash t c (path @ [of_nat (unat k0)]) = (None, c', evs1)"
        and st1: "st1 = setChild st (unat k0) (Some c')"
        using frontier_tidy [OF f(7)] lt
        by (auto simp: hashElder_def stc f split: if_splits prod.splits)
      from hash_sealed [OF hc] frontier_tidy [OF f(7)] have sc: "sealed c'" by simp
      from r right_None [OF f(5) ult] lt f(2)
      have st': "st' = setChild st1 (unat k0') (Some (newLeaf kr' v))"
        by auto
      let ?cs = "cs[unat k0 := Some c', unat k0' := Some (newLeaf kr' v)]"
      have eq: "st' = StNode branchNode K vl ?cs"
        by (simp add: st' st1 stc setChild_def branchNode)
      have "case ?cs ! unat i of Some c \<Rightarrow> present c krj | None \<Rightarrow> False"
        using le ult g f(2) sealed_present [OF sc]
        by (cases "unat i = unat k0") (auto simp: nth_list_update)
      with g f(2) show ?thesis by (simp add: eq)
    next
      assume a: "k0 = k0' \<and> keyLess kr kr'"
      have "hashElder t st (unat k0') path = (None, st, [])"
        using hashElder_sealed_left [of "unat k0'" st t path] f a by (simp add: stc)
      with he have st1: "st1 = st" by simp
      from r f(6) a obtain c2' evs2 where ins': "insert_st t c kr' v (path @ [k0']) = (None, c2', evs2)"
        and st': "st' = setChild st (unat k0) (Some c2')"
        by (auto simp: st1)
      have sz: "size c < size st"
        using size_nth_child [of "unat k0" st c] f by (simp add: stc)
      have "case (cs[unat k0 := Some c2']) ! unat i of Some c \<Rightarrow> present c krj | None \<Rightarrow> False"
      proof (cases "unat i = unat k0")
        case True
        with f g have "ci = c" by simp
        with less.IH [OF sz f(7) _ _ ins'] g(4) a have "present c2' krj" by simp
        with True f(2,3) show ?thesis by simp
      next
        case False
        with g show ?thesis by (simp add: nth_list_update)
      qed
      with g f(2) show ?thesis
        by (simp add: st' stc setChild_def branchNode)
    qed
  qed
qed

lemma Update_present:
  assumes "Update t key' v = (None, t', evs)" and "frontier (root t) k"
    and "keyLess k (hexKey key')" and "present (root t) kj"
  shows "present (root t') kj"
  using Update_success [OF assms(1)] insert_present [OF assms(2,4,3)] by blast

lemma run_updates_present:
  "frontier (root t) (hexKey k0) \<Longrightarrow> \<forall>key'\<in>S. present (root t) (hexKey key') \<Longrightarrow>
   increasing (k0 # map fst kvs) \<Longrightarrow> run t (updates kvs) = (None, t', evs) \<Longrightarrow>
   \<forall>key'\<in>S \<union> {k0} \<union> fst ` set kvs. present (root t') (hexKey key')"
proof (induction kvs arbitrary: t k0 S evs)
  case Nil
  then show ?case by (auto simp: updates_def dest: frontier_present)
next
  case (Cons kv kvs)
  obtain key' v where kv: "kv = (key', v)" by (cases kv)
  from Cons.prems(4) obtain t1 evs1 evs2 where u: "Update t key' v = (None, t1, evs1)"
    and r: "run t1 (updates kvs) = (None, t', evs2)"
    by (auto simp: updates_def kv perform_def split: prod.splits option.splits)
  from Cons.prems(3) have lt: "keyLess k0 key'" and inc: "increasing (key' # map fst kvs)"
    by (simp_all add: kv)
  note f1 = Update_frontier [OF u Cons.prems(1) keyLess_hexKey [OF lt]]
  have "\<forall>key''\<in>S \<union> {k0}. present (root t1) (hexKey key'')"
    using Update_present [OF u Cons.prems(1) keyLess_hexKey [OF lt]] Cons.prems(2)
      frontier_present [OF Cons.prems(1)] by auto
  from Cons.IH [OF f1 this inc r] show ?case by (auto simp: kv)
qed

lemma run_increasing:
  assumes "increasing (map fst kvs)" and "kvs \<noteq> []"
    and "run (NewStackTrie hs opts) (updates kvs) = (None, t, evs)"
  shows "frontier (root t) (hexKey (fst (List.last kvs)))
    \<and> (\<forall>key'\<in>fst ` set kvs. present (root t) (hexKey key'))"
proof -
  from assms(2) obtain kv kvs' where kvs: "kvs = kv # kvs'" by (cases kvs) auto
  obtain key' v where kv: "kv = (key', v)" by (cases kv)
  from assms(3) obtain t1 evs1 evs2 where u: "Update (NewStackTrie hs opts) key' v = (None, t1, evs1)"
    and r: "run t1 (updates kvs') = (None, t, evs2)"
    by (auto simp: updates_def kvs kv perform_def split: prod.splits option.splits)
  have f1: "frontier (root t1) (hexKey key')"
    using Update_fresh [OF u] by (simp add: NewStackTrie_def)
  from run_updates_frontier [OF f1 _ r] assms(1)
  have "frontier (root t) (hexKey (List.last (key' # map fst kvs')))"
    by (simp add: kvs kv)
  then have 1: "frontier (root t) (hexKey (fst (List.last kvs)))"
    by (auto simp: kvs kv last_map split: if_splits)
  from run_updates_present [OF f1 _ _ r, of "{}"] assms(1)
  have 2: "\<forall>key'\<in>fst ` set kvs. present (root t) (hexKey key')"
    by (simp add: kvs kv)
  from 1 2 show ?thesis by blast
qed

lemma Update_insert:
  assumes "v \<noteq> []"
  shows "\<exists>t2. fst (Update t key' v) = fst (insert_st t2 (root t) (hexKey key') v [])
    \<and> snd (snd (Update t key' v)) = snd (snd (insert_st t2 (root t) (hexKey key') v []))"
proof -
  let ?t2 = "(if first t = None then t\<lparr>first := Some (hexKey key')\<rparr> else t)\<lparr>last' := Some (hexKey key')\<rparr>"
  have "fst (Update t key' v) = fst (insert_st ?t2 (root t) (hexKey key') v [])
    \<and> snd (snd (Update t key' v)) = snd (snd (insert_st ?t2 (root t) (hexKey key') v []))"
    using assms
    by (cases "insert_st ?t2 (root t) (hexKey key') v []")
      (auto simp: Update_def TryUpdate_def Let_def hexKey_def split: option.splits)
  then show ?thesis by blast
qed

lemma splitLeaf_not_existing: "fst (splitLeaf t st d k v path) \<noteq> Some InsertIntoExistingKey"
  using hash_leaf_ok [of t "drop (d + 1) (key st)" "val st" "path @ take (d + 1) (key st)"]
  by (auto simp: splitLeaf_def Let_def placeChildren_def split: prod.splits option.splits stNode.splits if_splits)

lemma insert_leaf_existing:
  assumes "typ' st = leafNode"
  shows "fst (insert_st t st k v path) = Some InsertIntoExistingKey
    \<longleftrightarrow> (\<exists>d. getDiffIndex st k = Some d \<and> length (key st) \<le> d)"
  using assms splitLeaf_not_existing
  by (subst insert_st.simps) (auto split: option.splits)

text \<open>C6, as amended. After successful Updates with strictly increasing keys, an Update
  with a non-empty value panics with "Trying to insert into existing key" exactly when the
  nibble path of the key inserted last is a prefix of the nibble path of the new key, in
  particular when the two keys are equal; an Update of any key inserted before panics;
  and an Update that panics has caused no event at all. At a leaf, this panic occurs
  exactly when the diff index is at least the length of the leaf's chunk.\<close>

theorem duplicate_key_after_increasing_keys:
  assumes "increasing (map fst kvs)" and "kvs \<noteq> []"
    and "run (NewStackTrie hs opts) (updates kvs) = (None, t, evs)"
    and "value' \<noteq> []"
  shows "(fst (Update t key' value') = Some InsertIntoExistingKey
            \<longleftrightarrow> prefix (hexKey (fst (List.last kvs))) (hexKey key'))
     \<and> (key' \<in> fst ` set kvs \<longrightarrow> fst (Update t key' value') \<noteq> None)
     \<and> (fst (Update t key' value') \<noteq> None \<longrightarrow> snd (snd (Update t key' value')) = [])
     \<and> (typ' st = leafNode \<longrightarrow>
          (fst (insert_st u st k value' path) = Some InsertIntoExistingKey
             \<longleftrightarrow> (\<exists>d. getDiffIndex st k = Some d \<and> length (key st) \<le> d)))"
proof -
  note inv = run_increasing [OF assms(1-3)]
  from Update_insert [OF assms(4), of t key'] obtain t2 where
    e: "fst (Update t key' value') = fst (insert_st t2 (root t) (hexKey key') value' [])"
    and evs: "snd (snd (Update t key' value')) = snd (snd (insert_st t2 (root t) (hexKey key') value' []))"
    by blast
  obtain e' st' evs' where ins: "insert_st t2 (root t) (hexKey key') value' [] = (e', st', evs')"
    by (cases "insert_st t2 (root t) (hexKey key') value' []") auto
  have v: "\<forall>x\<in>set (hexKey a). unat x < 16" for a
    by (auto dest: hexKey_nibbles)
  from insert_outcome [OF inv [THEN conjunct1] v v ins]
  have 1: "fst (Update t key' value') = Some InsertIntoExistingKey
            \<longleftrightarrow> prefix (hexKey (fst (List.last kvs))) (hexKey key')"
    and 3: "fst (Update t key' value') \<noteq> None \<longrightarrow> snd (snd (Update t key' value')) = []"
    by (simp_all add: e evs ins)
  have 2: "key' \<in> fst ` set kvs \<longrightarrow> fst (Update t key' value') \<noteq> None"
    using insert_present_fails [OF inv [THEN conjunct1], of "hexKey key'" t2 value' "[]"] inv
    by (auto simp: e)
  from 1 2 3 insert_leaf_existing [of st u k value' path] show ?thesis by blast
qed

theorem duplicate_key_after_increasing_keys_witness:
  "fst (Update (fst (snd (run (NewStackTrie paddingHasher (Some sinkOptions))
         (updates [([0x10], [1]), ([0x12], [2])])))) [0x12] [9]) = Some InsertIntoExistingKey
   \<and> snd (snd (Update (fst (snd (run (NewStackTrie paddingHasher (Some sinkOptions))
         (updates [([0x10], [1]), ([0x12], [2])])))) [0x12] [9])) = []
   \<and> fst (Update (fst (snd (run (NewStackTrie paddingHasher (Some sinkOptions))
         (updates [([0x10], [1]), ([0x12], [2])])))) [0x10] [9]) \<noteq> None
   \<and> fst (insert_st (NewStackTrie paddingHasher None) (newLeaf [1, 2] [1]) [1, 2] [9] [])
       = Some InsertIntoExistingKey"
proof -
  let ?kvs = "[([0x10], [1]), ([0x12], [2 :: byte])] :: (byte list \<times> byte list) list"
  let ?r = "run (NewStackTrie paddingHasher (Some sinkOptions)) (updates ?kvs)"
  let ?S = "fst (snd ?r)"
  have i: "increasing (map fst ?kvs)" by simp
  have "fst ?r = None" by code_simp
  then have r: "?r = (None, ?S, snd (snd ?r))" by (cases ?r) auto
  have v: "[9 :: byte] \<noteq> []" by simp
  note A = duplicate_key_after_increasing_keys [OF i _ r v, of "[0x12]" "newLeaf [1, 2] [1]"
      "NewStackTrie paddingHasher None" "[1, 2]" "[]", simplified]
  note B = duplicate_key_after_increasing_keys [OF i _ r v, of "[0x10]" "newLeaf [1, 2] [1]"
      "NewStackTrie paddingHasher None" "[1, 2]" "[]", simplified]
  have l: "typ' (newLeaf [1, 2] [1]) = leafNode" "getDiffIndex (newLeaf [1, 2] [1]) [1, 2] = Some 2"
    "length (key (newLeaf [1, 2] [1])) \<le> 2"
    by (simp_all add: newLeaf_def getDiffIndex_def)
  from A have 1: "fst (Update ?S [0x12] [9]) = Some InsertIntoExistingKey" by simp
  with A have 2: "snd (snd (Update ?S [0x12] [9])) = []" by simp
  from B have 3: "fst (Update ?S [0x10] [9]) \<noteq> None" by simp
  from A l have 4: "fst (insert_st (NewStackTrie paddingHasher None) (newLeaf [1, 2] [1]) [1, 2] [9] [])
       = Some InsertIntoExistingKey" by blast
  from 1 2 3 4 show ?thesis by blast
qed

text \<open>The source accepts keys in any order. After the keys 10, 30 and 20 (hex), in this
  order, a second Update of the key 30 hashes the elder sibling, the leaf of the key 20,
  hands it to the writer, and then panics on the leaf of the key 30: a failing call with
  a writer emission. And the panic "Trying to insert into existing key" needs no equal
  key: after the key 12, the key 1234 reaches the leaf with the chunk 1, 2, which differs
  from the remaining nibbles 1, 2, 3, 4 but is a prefix of them.\<close>

theorem duplicate_key_counterexample:
  "fst (run (NewStackTrie paddingHasher (Some sinkOptions))
      (updates [([0x10], [1]), ([0x30], [2]), ([0x20], replicate 32 8)])) = None
   \<and> fst (Update (fst (snd (run (NewStackTrie paddingHasher (Some sinkOptions))
         (updates [([0x10], [1]), ([0x30], [2]), ([0x20], replicate 32 8)])))) [0x30] [2])
       = Some InsertIntoExistingKey
   \<and> writesOf (snd (snd (Update (fst (snd (run (NewStackTrie paddingHasher (Some sinkOptions))
         (updates [([0x10], [1]), ([0x30], [2]), ([0x20], replicate 32 8)])))) [0x30] [2])))
       = [([2], 0xe2 # 0x30 # 0xa0 # replicate 29 8)]
   \<and> typ' (root (fst (snd (Update (NewStackTrie paddingHasher (Some sinkOptions)) [0x12] [1])))) = leafNode
   \<and> key (root (fst (snd (Update (NewStackTrie paddingHasher (Some sinkOptions)) [0x12] [1])))) = [1, 2]
   \<and> hexKey [0x12, 0x34] = [1, 2, 3, 4]
   \<and> fst (Update (fst (snd (Update (NewStackTrie paddingHasher (Some sinkOptions)) [0x12] [1])))
         [0x12, 0x34] [2]) = Some InsertIntoExistingKey"
  by code_simp

subsection \<open>What the writer is given in one lifetime\<close>

text \<open>\<open>sealedAt st p q\<close>: in the tree \<open>st\<close> that stands at path \<open>p\<close>, the path \<open>q\<close> lies at or
  below a hashed node. \<open>wfN\<close>: every node has 16 slots, and an extension node a key that
  is not empty.\<close>

inductive sealedAt :: "stNode \<Rightarrow> byte list \<Rightarrow> byte list \<Rightarrow> bool" where
  hashed: "typ' st = hashedNode \<Longrightarrow> prefix p q \<Longrightarrow> sealedAt st p q"
| branch: "typ' st = branchNode \<Longrightarrow> i < length (children st) \<Longrightarrow> children st ! i = Some c \<Longrightarrow>
     sealedAt c (p @ [of_nat i]) q \<Longrightarrow> sealedAt st p q"
| ext: "typ' st = extNode \<Longrightarrow> children st = Some c # cs \<Longrightarrow> sealedAt c (p @ key st) q \<Longrightarrow>
     sealedAt st p q"

inductive wfN :: "stNode \<Rightarrow> bool" where
  "length (children st) = 16 \<Longrightarrow> (typ' st = extNode \<Longrightarrow> key st \<noteq> []) \<Longrightarrow>
   (\<And>c. Some c \<in> set (children st) \<Longrightarrow> wfN c) \<Longrightarrow> wfN st"

definition wp :: "event list \<Rightarrow> byte list list" where
  "wp evs = map fst (writesOf evs)"

lemma wp_simps [simp]:
  "wp [] = []" "wp (evs @ evs') = wp evs @ wp evs'"
  "wp (Write p d b # evs) = p # wp evs" "wp (Clean p # evs) = wp evs" "wp (GaugeInc # evs) = wp evs"
  by (simp_all add: wp_def writesOf_append)

lemma wp_map_Clean [simp]: "wp (map Clean ps) = []"
  by (induction ps) auto

lemma sealedAt_prefix: "sealedAt st p q \<Longrightarrow> prefix p q"
  by (induction rule: sealedAt.induct) (auto dest: append_prefixD)

lemma wfN_D:
  "wfN st \<Longrightarrow> length (children st) = 16"
  "wfN st \<Longrightarrow> typ' st = extNode \<Longrightarrow> key st \<noteq> []"
  "wfN st \<Longrightarrow> Some c \<in> set (children st) \<Longrightarrow> wfN c"
  by (auto elim: wfN.cases)

lemma wp_emitted: "list_all (emitted t p) evs \<Longrightarrow> q \<in> set (wp evs) \<Longrightarrow> prefix p q"
  using emitted_Write [of t p evs q] by (auto simp: wp_def)

lemma finishHash_wp:
  "finishHash t st p blob internal = (st', evs) \<Longrightarrow> wp evs = [] \<or> wp evs = [p]"
  by (auto simp: finishHash_def Let_def split: if_splits)

text \<open>What the induction over \<open>hash\<close> and \<open>insert\<close> carries: the paths written are
  distinct, and none of them lies at or below a node that was hashed before.\<close>

definition fresh :: "stNode \<Rightarrow> byte list \<Rightarrow> event list \<Rightarrow> bool" where
  "fresh st p evs = (distinct (wp evs) \<and> (\<forall>q\<in>set (wp evs). prefix p q \<and> \<not> sealedAt st p q))"

lemma byte_of_nat_inj:
  assumes "i < 256" "j < 256" "(of_nat i :: byte) = of_nat j"
  shows "i = j"
proof -
  from assms(3) have "unat (of_nat i :: byte) = unat (of_nat j :: byte)" by simp
  with assms(1,2) show ?thesis by (simp add: unat_of_nat)
qed

lemma sibling_paths:
  assumes "prefix (p @ [of_nat i :: byte]) q" "prefix (p @ [of_nat j]) q" "i < 256" "j < 256"
  shows "i = j"
proof -
  from assms(1,2) obtain r r' where "q = p @ [of_nat i] @ r" "q = p @ [of_nat j] @ r'"
    by (auto simp: prefix_def)
  then have "(of_nat i :: byte) = of_nat j" by simp
  with assms(3,4) show ?thesis by (intro byte_of_nat_inj)
qed

lemma hashChildren_fresh:
  assumes "hashChildren t cs i p = (e, cs', refs, evs)" and "i + length cs \<le> 256"
    and "\<And>c q e c' evs. Some c \<in> set cs \<Longrightarrow> hash t c q = (e, c', evs) \<Longrightarrow> fresh c q evs"
  shows "distinct (wp evs) \<and>
    (\<forall>q\<in>set (wp evs). \<exists>j<length cs. \<exists>c. cs ! j = Some c \<and> prefix (p @ [of_nat (i + j)]) q
        \<and> \<not> sealedAt c (p @ [of_nat (i + j)]) q)"
  using assms
proof (induction cs arbitrary: i e cs' refs evs)
  case Nil
  then show ?case by simp
next
  case (Cons a cs)
  have IH: "hashChildren t cs (Suc i) p = (e2, cs2, refs2, evs2) \<Longrightarrow>
      distinct (wp evs2) \<and>
      (\<forall>q\<in>set (wp evs2). \<exists>j<length cs. \<exists>c. cs ! j = Some c \<and> prefix (p @ [of_nat (Suc i + j)]) q
          \<and> \<not> sealedAt c (p @ [of_nat (Suc i + j)]) q)" for e2 cs2 refs2 evs2
    using Cons.prems(2,3) by (intro Cons.IH) auto
  have shift: "\<exists>j<length (a # cs). \<exists>c. (a # cs) ! j = Some c \<and> prefix (p @ [of_nat (i + j)]) q
          \<and> \<not> sealedAt c (p @ [of_nat (i + j)]) q"
    if "\<exists>j<length cs. \<exists>c. cs ! j = Some c \<and> prefix (p @ [of_nat (Suc i + j)]) q
          \<and> \<not> sealedAt c (p @ [of_nat (Suc i + j)]) q" for q
  proof -
    from that obtain j c where "j < length cs" "cs ! j = Some c" "prefix (p @ [of_nat (Suc i + j)]) q"
      "\<not> sealedAt c (p @ [of_nat (Suc i + j)]) q" by blast
    then show ?thesis by (intro exI [of _ "Suc j"]) simp
  qed
  show ?case
  proof (cases a)
    case None
    obtain e2 cs2 refs2 evs2 where r: "hashChildren t cs (Suc i) p = (e2, cs2, refs2, evs2)"
      by (cases "hashChildren t cs (Suc i) p") auto
    with Cons.prems(1) None have "evs = evs2" by simp
    with IH [OF r] shift show ?thesis by blast
  next
    case (Some child)
    obtain e1 child' evs1 where h: "hash t child (p @ [of_nat i]) = (e1, child', evs1)"
      by (cases "hash t child (p @ [of_nat i])") auto
    from Cons.prems(3) [OF _ h] Some have f1: "fresh child (p @ [of_nat i]) evs1" by simp
    have first: "\<exists>j<length (a # cs). \<exists>c. (a # cs) ! j = Some c \<and> prefix (p @ [of_nat (i + j)]) q
          \<and> \<not> sealedAt c (p @ [of_nat (i + j)]) q" if "q \<in> set (wp evs1)" for q
      using that f1 Some by (intro exI [of _ 0]) (auto simp: fresh_def)
    show ?thesis
    proof (cases e1)
      case (Some x)
      with Cons.prems(1) h \<open>a = Some child\<close> have "evs = evs1" by simp
      with f1 first show ?thesis by (auto simp: fresh_def)
    next
      case None
      obtain e2 cs2 refs2 evs2 where r: "hashChildren t cs (Suc i) p = (e2, cs2, refs2, evs2)"
        by (cases "hashChildren t cs (Suc i) p") auto
      with Cons.prems(1) h None \<open>a = Some child\<close> have evs: "evs = evs1 @ evs2" by simp
      have disj: "set (wp evs1) \<inter> set (wp evs2) = {}"
      proof (rule ccontr)
        assume "set (wp evs1) \<inter> set (wp evs2) \<noteq> {}"
        then obtain q where q: "q \<in> set (wp evs1)" "q \<in> set (wp evs2)" by auto
        from q(1) f1 have 1: "prefix (p @ [of_nat i]) q" by (auto simp: fresh_def)
        from q(2) IH [OF r] obtain j where j: "j < length cs" "prefix (p @ [of_nat (Suc i + j)]) q"
          by blast
        from sibling_paths [OF 1 j(2)] Cons.prems(2) j(1) show False by simp
      qed
      from IH [OF r] f1 disj first shift show ?thesis
        by (auto simp: evs fresh_def)
    qed
  qed
qed

lemma not_sealed_leaf: "typ' st = leafNode \<Longrightarrow> \<not> sealedAt st p q"
  by (subst sealedAt.simps) auto

lemma not_sealed_empty: "typ' st = emptyNode \<Longrightarrow> \<not> sealedAt st p q"
  by (subst sealedAt.simps) auto

lemma sealedAt_ext: "typ' st = extNode \<Longrightarrow> children st = Some c # cs \<Longrightarrow>
    sealedAt st p q = sealedAt c (p @ key st) q"
  by (subst sealedAt.simps) auto

lemma sealedAt_branch: "typ' st = branchNode \<Longrightarrow>
    sealedAt st p q = (\<exists>i<length (children st). \<exists>c. children st ! i = Some c \<and> sealedAt c (p @ [of_nat i]) q)"
  by (subst sealedAt.simps) auto

lemma sealedAt_hashed: "typ' st = hashedNode \<Longrightarrow> sealedAt st p q = prefix p q"
  by (subst sealedAt.simps) auto

lemma wfN_hashed_result:
  assumes "typ' st' = hashedNode" "length (children st') = 16" "\<And>c. Some c \<in> set (children st') \<Longrightarrow> wfN c"
  shows "wfN st'"
proof (rule wfN.intros)
  show "length (children st') = 16" by (rule assms(2))
  show "key st' \<noteq> []" if "typ' st' = extNode" using that assms(1) by simp
  show "wfN c" if "Some c \<in> set (children st')" for c using that by (rule assms(3))
qed

lemma hash_fresh: "wfN st \<Longrightarrow> hash t st p = (e, st', evs) \<Longrightarrow> fresh st p evs \<and> (e = None \<longrightarrow> wfN st')"
proof (induction st arbitrary: p e st' evs rule: measure_induct_rule [of size])
  case (less st)
  obtain ty K vl cs where stc: "st = StNode ty K vl cs" by (cases st)
  note wf = wfN_D [OF less.prems(1)]
  note h = less.prems(2)
  have len: "length cs = 16" using wf(1) stc by simp
  have wfc: "wfN c" if "Some c \<in> set cs" for c using wf(3) [of c] that stc by simp
  show ?case
  proof (cases ty)
    case hashedNode
    with h stc less.prems(1) show ?thesis by (auto simp: hash.simps fresh_def)
  next
    case emptyNode
    with h stc have "evs = []" "st' = StNode hashedNode [] emptyRoot cs" "e = None"
      by (auto simp: hash.simps)
    moreover have "wfN (StNode hashedNode [] emptyRoot cs)"
      using len wfc by - (rule wfN_hashed_result, auto)
    ultimately show ?thesis by (simp add: fresh_def)
  next
    case leafNode
    from h obtain blob where fin: "finishHash t st p blob [] = (st', evs)" and e: "e = None"
      by (auto simp: stc leafNode hash_live split: prod.splits)
    from finishHash_wp [OF fin] not_sealed_leaf [of st p p]
    have "fresh st p evs" by (auto simp: fresh_def stc leafNode)
    moreover from finishHash_result [OF fin] len wfc have "wfN st'"
      by - (rule wfN_hashed_result, auto simp: stc)
    ultimately show ?thesis by simp
  next
    case extNode
    from len obtain c0 cs1 where cs: "cs = c0 # cs1" by (cases cs) auto
    have Kne: "K \<noteq> []" using wf(2) stc extNode by simp
    show ?thesis
    proof (cases c0)
      case None
      with h have "evs = []" "e \<noteq> None"
        by (auto simp: stc extNode cs hash_live)
      then show ?thesis by (auto simp: fresh_def)
    next
      case (Some c)
      obtain e1 c' evs1 where hc: "hash t c (p @ K) = (e1, c', evs1)"
        by (cases "hash t c (p @ K)") auto
      have "size c < size st" by (simp add: stc cs Some)
      from less.IH [OF this wfc hc] cs Some have f1: "fresh c (p @ K) evs1" by simp
      have se: "sealedAt st p q = sealedAt c (p @ K) q" for q
        using sealedAt_ext [of st c cs1 p q] by (simp add: stc extNode cs Some)
      have under: "prefix (p @ K) q \<and> prefix p q \<and> q \<noteq> p \<and> \<not> sealedAt st p q" if "q \<in> set (wp evs1)" for q
      proof -
        from that f1 have a: "prefix (p @ K) q" "\<not> sealedAt c (p @ K) q" by (auto simp: fresh_def)
        from a(1) Kne have "q \<noteq> p" by (auto simp: prefix_def)
        with a se show ?thesis by (auto dest: append_prefixD)
      qed
      have nsp: "\<not> sealedAt st p p"
      proof
        assume "sealedAt st p p"
        then have "prefix (p @ K) p" unfolding se by (rule sealedAt_prefix)
        with Kne show False by (auto simp: prefix_def)
      qed
      show ?thesis
      proof (cases e1)
        case (Some x)
        with h hc \<open>c0 = Some c\<close> have "evs = evs1" "e \<noteq> None"
          by (auto simp: stc extNode cs hash_live)
        with f1 under show ?thesis by (auto simp: fresh_def)
      next
        case None
        with h hc \<open>c0 = Some c\<close> obtain blob internal evsF where
          fin: "finishHash t (StNode extNode K vl (None # cs1)) p blob internal = (st', evsF)"
          and evs: "evs = evs1 @ evsF"
          by (auto simp: stc extNode cs hash_live split: prod.splits)
        from finishHash_wp [OF fin] f1 under nsp have "fresh st p evs"
          by (auto simp: fresh_def evs)
        moreover from finishHash_result [OF fin] len wfc cs have "wfN st'"
          by - (rule wfN_hashed_result, auto)
        ultimately show ?thesis by simp
      qed
    qed
  next
    case branchNode
    obtain e1 cs' refs evs1 where hc: "hashChildren t cs 0 p = (e1, cs', refs, evs1)"
      by (cases "hashChildren t cs 0 p") auto
    have ih: "fresh c q evs'" if "Some c \<in> set cs" "hash t c q = (e', c', evs')" for c q e' c' evs'
    proof -
      from that(1) obtain j where "j < length (children st)" "children st ! j = Some c"
        by (auto simp: stc in_set_conv_nth)
      then have "size c < size st" by (rule size_nth_child)
      from less.IH [OF this wfc [OF that(1)] that(2)] show ?thesis by simp
    qed
    from hashChildren_fresh [OF hc _ ih] len
    have d1: "distinct (wp evs1)" and
      from_child: "\<And>q. q \<in> set (wp evs1) \<Longrightarrow> \<exists>j<length cs. \<exists>c. cs ! j = Some c \<and> prefix (p @ [of_nat j]) q
          \<and> \<not> sealedAt c (p @ [of_nat j]) q"
      by auto
    have sb: "sealedAt st p q = (\<exists>i<length cs. \<exists>c. cs ! i = Some c \<and> sealedAt c (p @ [of_nat i]) q)" for q
      using sealedAt_branch [of st p q] by (simp add: stc branchNode)
    have under: "prefix p q \<and> q \<noteq> p \<and> \<not> sealedAt st p q" if "q \<in> set (wp evs1)" for q
    proof -
      from from_child [OF that] obtain j c where j: "j < length cs" "cs ! j = Some c"
        "prefix (p @ [of_nat j]) q" "\<not> sealedAt c (p @ [of_nat j]) q" by blast
      have "\<not> sealedAt st p q"
      proof
        assume "sealedAt st p q"
        then obtain i c2 where i: "i < length cs" "cs ! i = Some c2" "sealedAt c2 (p @ [of_nat i]) q"
          unfolding sb by blast
        from sibling_paths [OF sealedAt_prefix [OF i(3)] j(3)] i(1) j(1) len have "i = j" by simp
        with i j show False by simp
      qed
      moreover from j(3) have "q \<noteq> p" "prefix p q" by (auto simp: prefix_def)
      ultimately show ?thesis by simp
    qed
    have nsp: "\<not> sealedAt st p p"
    proof
      assume "sealedAt st p p"
      then obtain i c2 where "sealedAt c2 (p @ [of_nat i]) p" unfolding sb by blast
      from sealedAt_prefix [OF this] show False by (auto simp: prefix_def)
    qed
    show ?thesis
    proof (cases e1)
      case (Some x)
      with h hc have "evs = evs1" "e \<noteq> None"
        by (auto simp: stc branchNode hash_live)
      with d1 under show ?thesis by (auto simp: fresh_def)
    next
      case None
      with h hc obtain blob evsF where
        fin: "finishHash t (StNode branchNode K vl cs') p blob [] = (st', evsF)"
        and evs: "evs = evs1 @ evsF"
        by (auto simp: stc branchNode hash_live split: prod.splits)
      from finishHash_wp [OF fin] d1 under nsp have "fresh st p evs"
        by (auto simp: fresh_def evs)
      moreover from hashChildren_noChildren [OF hc [unfolded None]] len
      have "length cs' = 16" "\<And>c. Some c \<notin> set cs'"
        by (auto simp: noChildren_def list_all_iff)
      with finishHash_result [OF fin] have "wfN st'"
        by - (rule wfN_hashed_result, auto)
      ultimately show ?thesis by simp
    qed
  qed
qed

definition grows :: "stNode \<Rightarrow> stNode \<Rightarrow> byte list \<Rightarrow> event list \<Rightarrow> bool" where
  "grows st st' p evs =
     (wfN st' \<and> (\<forall>q. sealedAt st p q \<longrightarrow> sealedAt st' p q) \<and> (\<forall>q\<in>set (wp evs). sealedAt st' p q))"

lemma wfN_newLeaf: "wfN (newLeaf k v)"
  by (rule wfN.intros) (auto simp: newLeaf_def)

lemma wfN_update:
  assumes "length cs = 16" "\<And>c. Some c \<in> set cs \<Longrightarrow> wfN c" "x = None \<or> (\<exists>c. x = Some c \<and> wfN c)"
  shows "length (cs[j := x]) = 16 \<and> (\<forall>c. Some c \<in> set (cs[j := x]) \<longrightarrow> wfN c)"
proof -
  have "set (cs[j := x]) \<subseteq> insert x (set cs)" by (rule set_update_subset_insert)
  with assms show ?thesis by auto
qed

lemma wfN_StNode:
  assumes "length cs = 16" "\<And>c. Some c \<in> set cs \<Longrightarrow> wfN c" "ty = extNode \<Longrightarrow> K \<noteq> []"
  shows "wfN (StNode ty K vl cs)"
  by (rule wfN.intros) (use assms in auto)

lemma wfN_setChild:
  assumes "wfN st" "wfN c"
  shows "wfN (setChild st j (Some c))"
proof -
  note wf = wfN_D [OF assms(1)]
  from wfN_update [OF wf(1) wf(3), of "Some c" j] assms(2)
  have "length ((children st)[j := Some c]) = 16" "\<And>x. Some x \<in> set ((children st)[j := Some c]) \<Longrightarrow> wfN x"
    by auto
  then show ?thesis
    unfolding setChild_def using wf(2) by (intro wfN_StNode) auto
qed

lemma byte_of_unat [simp]: "(of_nat (unat (x :: byte)) :: byte) = x"
  by simp

lemma assemble_grows:
  assumes cs: "length cs = 16" "\<And>c. Some c \<in> set cs \<Longrightarrow> wfN c"
    and d: "d < length K" "unat (K ! d) \<noteq> unat (k' ! d)"
    and n: "typ' n = hashedNode" "wfN n"
    and pl: "placeChildren (branchOf (StNode ty K vl cs) d) (unat (K ! d)) n (unat (k' ! d))
               (newLeaf (drop (d + 1) k') v) = (None, p')"
    and wb: "withBranch (StNode ty K vl cs) d p' = StNode ty' k'' v' cs'"
  shows "wfN (StNode ty' (take d k'') v'' cs')
     \<and> (\<forall>q. prefix (p @ take (Suc d) K) q \<longrightarrow> sealedAt (StNode ty' (take d k'') v'' cs') p q)"
proof -
  let ?orig = "unat (K ! d)" and ?new = "unat (k' ! d)"
  let ?o = "newLeaf (drop (d + 1) k') v"
  have tk: "take (Suc d) K = take d K @ [K ! d]"
    using d(1) by (rule take_Suc_conv_app_nth)
  have sn: "sealedAt n (pp @ [of_nat ?orig]) q" if "prefix (pp @ [K ! d]) q" for pp q
    using that n(1) by (intro sealedAt.hashed) simp_all
  show ?thesis
  proof (cases "d = 0")
    case True
    from pl True cs have idx: "?orig < 16" "?new < 16"
      and p': "p' = StNode branchNode K vl (cs[0 := None, ?orig := Some n, ?new := Some ?o])"
      by (auto simp: placeChildren_def branchOf_def setChild_def split: if_splits)
    from wb True p' have eq: "ty' = branchNode" "cs' = cs[0 := None, ?orig := Some n, ?new := Some ?o]"
      by (auto simp: withBranch_def)
    have w1: "length (cs[0 := None]) = 16 \<and> (\<forall>c. Some c \<in> set (cs[0 := None]) \<longrightarrow> wfN c)"
      using cs by (intro wfN_update) auto
    then have w2: "length (cs[0 := None, ?orig := Some n]) = 16
        \<and> (\<forall>c. Some c \<in> set (cs[0 := None, ?orig := Some n]) \<longrightarrow> wfN c)"
      using n(2) by (intro wfN_update) auto
    then have w3: "length cs' = 16 \<and> (\<forall>c. Some c \<in> set cs' \<longrightarrow> wfN c)"
      unfolding eq using wfN_newLeaf by (intro wfN_update) auto
    then have wf: "wfN (StNode ty' (take d k'') v'' cs')"
      by (intro wfN_StNode) (auto simp: eq)
    have at: "cs' ! ?orig = Some n" using idx d(2) cs(1) by (simp add: eq)
    have "sealedAt (StNode ty' (take d k'') v'' cs') p q" if "prefix (p @ take (Suc d) K) q" for q
      using sealedAt.branch [of "StNode ty' (take d k'') v'' cs'" ?orig n p q] at idx w3 sn [of p q] that tk True
      by (simp add: eq(1))
    with wf show ?thesis by blast
  next
    case False
    from pl False have idx: "?orig < 16" "?new < 16"
      and p': "p' = StNode branchNode [] [] ((replicate 16 None)[?orig := Some n, ?new := Some ?o])"
      by (auto simp: placeChildren_def branchOf_def setChild_def poolGet_def split: if_splits)
    from wb False have eq: "ty' = extNode" "k'' = K" "cs' = cs[0 := Some p']"
      by (auto simp: withBranch_def)
    let ?pc = "(replicate 16 None)[?orig := Some n, ?new := Some ?o]"
    have w1: "length ((replicate 16 None)[?orig := Some n] :: stNode option list) = 16
        \<and> (\<forall>c. Some c \<in> set ((replicate 16 None)[?orig := Some n]) \<longrightarrow> wfN c)"
      using n(2) by (intro wfN_update) auto
    then have w2: "length ?pc = 16 \<and> (\<forall>c. Some c \<in> set ?pc \<longrightarrow> wfN c)"
      using wfN_newLeaf by (intro wfN_update) auto
    then have wp': "wfN p'" unfolding p' by (intro wfN_StNode) auto
    then have w3: "length cs' = 16 \<and> (\<forall>c. Some c \<in> set cs' \<longrightarrow> wfN c)"
      unfolding eq using cs by (intro wfN_update) auto
    then have wf: "wfN (StNode ty' (take d k'') v'' cs')"
      using False d(1) by (intro wfN_StNode) (auto simp: eq)
    have at: "?pc ! ?orig = Some n" using idx d(2) by simp
    obtain x xs where cx: "cs = x # xs" using cs(1) by (cases cs) auto
    have "sealedAt (StNode ty' (take d k'') v'' cs') p q" if "prefix (p @ take (Suc d) K) q" for q
    proof -
      from that tk have "prefix ((p @ take d K) @ [K ! d]) q" by simp
      from sn [OF this] have "sealedAt p' (p @ take d K) q"
        using sealedAt.branch [of p' ?orig n "p @ take d K" q] at idx w2 by (simp add: p')
      then show ?thesis
        using sealedAt.ext [of "StNode ty' (take d k'') v'' cs'" p' xs p q]
        by (simp add: eq cx)
    qed
    with wf show ?thesis by blast
  qed
qed

lemma fresh_Nil [simp]: "fresh st p []"
  by (simp add: fresh_def)

lemma prefix_take_Suc: "d < length K \<Longrightarrow> prefix (p @ K) q \<Longrightarrow> prefix (p @ take (Suc d) K) q"
proof -
  assume "d < length K" "prefix (p @ K) q"
  moreover have "prefix (p @ take (Suc d) K) (p @ K)" by (simp add: take_is_prefix)
  ultimately show ?thesis by (meson prefix_order.trans)
qed

lemma splitLeaf_fresh:
  assumes wf: "wfN st" and ty: "typ' st = leafNode"
    and d: "d < length (key st)" "key st ! d \<noteq> k' ! d"
    and s: "splitLeaf t st d k' v p = (e, st', evs)"
  shows "fresh st p evs \<and> (e = None \<longrightarrow> grows st st' p evs)"
proof -
  obtain K vl cs where stc: "st = StNode leafNode K vl cs"
    using ty by (cases st) auto
  note w = wfN_D [OF wf]
  let ?path = "p @ take (d + 1) (key st)"
  obtain e1 n evs1 where hl: "hash t (newLeaf (drop (d + 1) (key st)) (val st)) ?path = (e1, n, evs1)"
    by (cases "hash t (newLeaf (drop (d + 1) (key st)) (val st)) ?path") auto
  note hf = hash_fresh [OF wfN_newLeaf hl]
  have ev: "evs = [] \<or> evs = evs1"
    using s hl by (auto simp: splitLeaf_def Let_def split: if_splits prod.splits option.splits stNode.splits)
  have fr: "fresh st p evs"
    using ev hf not_sealed_leaf [OF ty]
    by (auto simp: fresh_def dest: append_prefixD)
  have "grows st st' p evs" if "e = None"
  proof -
    from s that hl obtain p' where e1: "e1 = None" and evs: "evs = evs1"
      and pl: "placeChildren (branchOf st d) (unat (key st ! d)) n (unat (k' ! d)) (newLeaf (drop (d + 1) k') v) = (None, p')"
      and st': "st' = (case withBranch st d p' of StNode ty k'' v' cs' \<Rightarrow> StNode ty (take d k'') [] cs')"
      by (auto simp: splitLeaf_def Let_def split: if_splits prod.splits option.splits stNode.splits)
    from hf e1 hash_hashed [OF hl [unfolded e1]] have n: "typ' n = hashedNode" "wfN n" by auto
    obtain ty' k'' v' cs' where wb: "withBranch st d p' = StNode ty' k'' v' cs'"
      by (cases "withBranch st d p'") auto
    have ne: "unat (K ! d) \<noteq> unat (k' ! d)" using d(2) by (simp add: stc word_unat_eq_iff)
    from assemble_grows [OF _ _ d(1)[unfolded stc stNode.sel] ne n pl [unfolded stc stNode.sel] wb [unfolded stc], of "[]" p]
      w(1,3) stc
    have a: "wfN (StNode ty' (take d k'') [] cs')"
      "\<And>q. prefix (p @ take (Suc d) K) q \<Longrightarrow> sealedAt (StNode ty' (take d k'') [] cs') p q"
      by auto
    have eq: "st' = StNode ty' (take d k'') [] cs'" by (simp only: st' wb stNode.case)
    from a hf not_sealed_leaf [OF ty] show ?thesis
      by (auto simp: grows_def eq evs fresh_def stc)
  qed
  with fr show ?thesis by blast
qed

lemma sealedAt_newExt:
  "sealedAt (newExt k2 (Some c)) p q = sealedAt c (p @ k2) q"
  using sealedAt_ext [of "newExt k2 (Some c)" c "replicate 15 None" p q]
  by (simp add: newExt_def eval_nat_numeral)

lemma wfN_newExt: "k2 \<noteq> [] \<Longrightarrow> (\<And>c. c0 = Some c \<Longrightarrow> wfN c) \<Longrightarrow> wfN (newExt k2 c0)"
  unfolding newExt_def
  by (rule wfN_StNode) (auto simp: eval_nat_numeral)

lemma splitExt_fresh:
  assumes wf: "wfN st" and ty: "typ' st = extNode"
    and d: "d < length (key st)" "key st ! d \<noteq> k' ! d"
    and s: "splitExt t st d k' v p = (e, st', evs)"
  shows "fresh st p evs \<and> (e = None \<longrightarrow> grows st st' p evs)"
proof -
  obtain K vl cs where stc: "st = StNode extNode K vl cs"
    using ty by (cases st) auto
  note w = wfN_D [OF wf]
  from w(1) obtain c0 cs1 where cs: "children st = c0 # cs1" by (cases "children st") auto
  have wc: "wfN c" if "c0 = Some c" for c using w(3) [of c] that cs by simp
  obtain e1 st1 n evs1 where ho: "hashOriginal t st d p = (e1, st1, n, evs1)"
    by (cases "hashOriginal t st d p") auto
  have evs: "evs = evs1"
    using s ho by (auto simp: splitExt_def split: prod.splits option.splits stNode.splits)
  have se: "sealedAt st p q \<Longrightarrow> \<exists>c. c0 = Some c \<and> sealedAt c (p @ K) q" for q
    using ty cs by (subst (asm) sealedAt.simps) (auto simp: stc)
  have K: "take (Suc d) K @ drop (Suc d) K = K" by simp
  have core: "fresh st p evs1 \<and> (\<forall>q\<in>set (wp evs1). prefix (p @ take (Suc d) K) q)
      \<and> (e1 = None \<longrightarrow> typ' n = hashedNode \<and> wfN n)"
  proof (cases c0)
    case None
    with ho cs have "evs1 = []" "e1 \<noteq> None"
      by (auto simp: hashOriginal_def newExt_def eval_nat_numeral hash_live split: if_splits)
    then show ?thesis by auto
  next
    case (Some c)
    have sc: "sealedAt st p q = sealedAt c (p @ K) q" for q
      using sealedAt_ext [of st c cs1 p q] ty cs Some by (simp add: stc)
    show ?thesis
    proof (cases "d < length (key st) - 1")
      case True
      with ho cs have hn: "hash t (newExt (drop (Suc d) K) (Some c)) (p @ take (Suc d) K) = (e1, n, evs1)"
        by (auto simp: hashOriginal_def Some stc split: prod.splits)
      have "wfN (newExt (drop (Suc d) K) (Some c))"
        using True wc [OF Some] by (intro wfN_newExt) (auto simp: stc)
      from hash_fresh [OF this hn] hash_hashed [of t _ _ n evs1] hn
      show ?thesis
        using sealedAt_newExt [of "drop (Suc d) K" c "p @ take (Suc d) K"]
        by (auto simp: fresh_def sc sc [unfolded stc] dest: append_prefixD)
    next
      case False
      with ho cs have hn: "hash t c (p @ K) = (e1, n, evs1)"
        by (auto simp: hashOriginal_def Some stc split: prod.splits)
      from hash_fresh [OF wc [OF Some] hn] hash_hashed [of t _ _ n evs1] hn d(1)
      show ?thesis
        by (auto simp: fresh_def sc sc [unfolded stc] stc dest: append_prefixD intro: prefix_take_Suc)
    qed
  qed
  have "grows st st' p evs" if "e = None"
  proof -
    from s that ho obtain p' where e1: "e1 = None"
      and pl: "placeChildren (branchOf st d) (unat (key st ! d)) n (unat (k' ! d)) (newLeaf (drop (d + 1) k') v) = (None, p')"
      and st': "st' = (case withBranch st d p' of StNode ty k'' v' cs' \<Rightarrow> StNode ty (take d k'') v' cs')"
      by (auto simp: splitExt_def split: if_splits prod.splits option.splits stNode.splits)
    from core e1 have n: "typ' n = hashedNode" "wfN n" by auto
    obtain ty' k'' v' cs' where wb: "withBranch st d p' = StNode ty' k'' v' cs'"
      by (cases "withBranch st d p'") auto
    have ne: "unat (K ! d) \<noteq> unat (k' ! d)" using d(2) by (simp add: stc word_unat_eq_iff)
    from assemble_grows [OF _ _ d(1)[unfolded stc stNode.sel] ne n pl [unfolded stc stNode.sel] wb [unfolded stc], of v' p]
      w(1,3) stc
    have a: "wfN (StNode ty' (take d k'') v' cs')"
      "\<And>q. prefix (p @ take (Suc d) K) q \<Longrightarrow> sealedAt (StNode ty' (take d k'') v' cs') p q"
      by auto
    have eq: "st' = StNode ty' (take d k'') v' cs'" by (simp only: st' wb stNode.case)
    have "sealedAt st' p q" if "sealedAt st p q" for q
    proof -
      from se [OF that] obtain c where "sealedAt c (p @ K) q" by blast
      from prefix_take_Suc [OF _ sealedAt_prefix [OF this], of d] d(1) a(2) show ?thesis
        by (simp add: eq stc)
    qed
    with a core show ?thesis
      by (auto simp: grows_def eq evs)
  qed
  with core evs show ?thesis by blast
qed

lemma fresh_branch_child:
  assumes "typ' st = branchNode" "length (children st) = 16" "i < 16" "children st ! i = Some c"
    and "fresh c (p @ [of_nat i]) evs"
  shows "fresh st p evs"
proof -
  have "\<not> sealedAt st p q" if q: "prefix (p @ [of_nat i]) q" "\<not> sealedAt c (p @ [of_nat i]) q" for q
  proof
    assume "sealedAt st p q"
    then obtain j c2 where j: "j < 16" "children st ! j = Some c2" "sealedAt c2 (p @ [of_nat j]) q"
      using assms(1,2) by (auto simp: sealedAt_branch)
    from sibling_paths [OF sealedAt_prefix [OF j(3)] q(1)] j(1) assms(3) have "j = i" by simp
    with j assms(4) q(2) show False by simp
  qed
  with assms(5) show ?thesis
    by (auto simp: fresh_def dest: append_prefixD)
qed

lemma hashElder_fresh:
  assumes "wfN st" "typ' st = branchNode" "hashElder t st idx p = (e1, st1, evs1)"
  shows "fresh st p evs1 \<and>
    ((evs1 = [] \<and> st1 = st) \<or>
     (\<exists>i c c'. i < idx \<and> i < 16 \<and> children st ! i = Some c \<and> st1 = setChild st i (Some c')
        \<and> (\<forall>q\<in>set (wp evs1). prefix (p @ [of_nat i]) q)
        \<and> (e1 = None \<longrightarrow> typ' c' = hashedNode \<and> wfN c')))"
proof -
  note w = wfN_D [OF assms(1)]
  show ?thesis
  proof (cases "idx > length (children st)")
    case True
    with assms(3) show ?thesis by (simp add: hashElder_def)
  next
    case False
    show ?thesis
    proof (cases "elderSibling (children st) idx")
      case None
      with assms(3) False show ?thesis by (simp add: hashElder_def)
    next
      case (Some a)
      obtain i c where a: "a = (i, c)" by (cases a)
      from elderSibling_Some [OF Some [unfolded a]] have i: "i < idx" "children st ! i = Some c" by auto
      with False w(1) have i16: "i < 16" by simp
      show ?thesis
      proof (cases "typ' c = hashedNode")
        case True
        with assms(3) False Some a show ?thesis by (simp add: hashElder_def)
      next
        case nh: False
        obtain c' where hc: "hash t c (p @ [of_nat i]) = (e1, c', evs1)"
          and st1: "st1 = setChild st i (Some c')"
          using assms(3) False Some a nh by (auto simp: hashElder_def split: prod.splits)
        have "Some c \<in> set (children st)" using i i16 w(1) by (metis nth_mem)
        then have wc: "wfN c" by (rule w(3))
        note hf = hash_fresh [OF wc hc]
        from hf have fr: "fresh st p evs1"
          using fresh_branch_child [OF assms(2) w(1) i16 i(2)] by simp
        from hf hash_hashed [of t c _ c' evs1] hc
        have "e1 = None \<longrightarrow> typ' c' = hashedNode \<and> wfN c'" by auto
        moreover from hf have "\<forall>q\<in>set (wp evs1). prefix (p @ [of_nat i]) q"
          by (simp add: fresh_def)
        ultimately show ?thesis using fr i i16 st1 by blast
      qed
    qed
  qed
qed

lemma sealedAt_setChild_branch:
  assumes "typ' st = branchNode" "length (children st) = 16" "j < 16"
  shows "sealedAt (setChild st j (Some c')) p q \<longleftrightarrow>
    (sealedAt c' (p @ [of_nat j]) q
     \<or> (\<exists>i<16. i \<noteq> j \<and> (\<exists>c. children st ! i = Some c \<and> sealedAt c (p @ [of_nat i]) q)))"
proof -
  have "sealedAt (setChild st j (Some c')) p q \<longleftrightarrow>
      (\<exists>i<16. \<exists>c. (children st)[j := Some c'] ! i = Some c \<and> sealedAt c (p @ [of_nat i]) q)"
    using assms by (subst sealedAt_branch) (simp_all add: setChild_def)
  also have "\<dots> \<longleftrightarrow> (sealedAt c' (p @ [of_nat j]) q
     \<or> (\<exists>i<16. i \<noteq> j \<and> (\<exists>c. children st ! i = Some c \<and> sealedAt c (p @ [of_nat i]) q)))"
    using assms(2,3) by (auto simp: nth_list_update split: if_splits)
  finally show ?thesis .
qed

lemma fresh_append:
  assumes "fresh st p evs1" "fresh st p evs2" "set (wp evs1) \<inter> set (wp evs2) = {}"
  shows "fresh st p (evs1 @ evs2)"
  using assms by (auto simp: fresh_def)

text \<open>The branch after the loop over the elder siblings.\<close>

lemma elder_grows:
  assumes wf: "wfN st" and ty: "typ' st = branchNode"
    and he: "hashElder t st idx p = (None, st1, evs1)"
  shows "grows st st1 p evs1 \<and> typ' st1 = branchNode \<and> children st1 ! idx = children st ! idx
     \<and> (\<forall>q\<in>set (wp evs1). \<not> prefix (p @ [of_nat idx]) q)"
proof -
  note w = wfN_D [OF wf]
  from hashElder_fresh [OF wf ty he]
  consider "evs1 = []" "st1 = st"
    | i c c' where "i < idx" "i < 16" "children st ! i = Some c" "st1 = setChild st i (Some c')"
        "\<forall>q\<in>set (wp evs1). prefix (p @ [of_nat i]) q" "typ' c' = hashedNode" "wfN c'"
    by auto
  then show ?thesis
  proof cases
    case 1
    with wf ty show ?thesis by (simp add: grows_def)
  next
    case 2
    have sc': "sealedAt c' (p @ [of_nat i]) q" if "prefix (p @ [of_nat i]) q" for q
      using that 2(6) by (rule sealedAt.hashed [rotated])
    have mono: "sealedAt st1 p q" if "sealedAt st p q" for q
    proof -
      from that obtain j c2 where j: "j < 16" "children st ! j = Some c2" "sealedAt c2 (p @ [of_nat j]) q"
        using ty w(1) by (auto simp: sealedAt_branch)
      show ?thesis
      proof (cases "j = i")
        case True
        from sealedAt_prefix [OF j(3)] True have "prefix (p @ [of_nat i]) q" by simp
        from sc' [OF this] show ?thesis
          unfolding 2(4) sealedAt_setChild_branch [OF ty w(1) 2(2)] by simp
      next
        case False
        with j show ?thesis
          unfolding 2(4) sealedAt_setChild_branch [OF ty w(1) 2(2)] by blast
      qed
    qed
    have evs: "sealedAt st1 p q" if "q \<in> set (wp evs1)" for q
      using sc' [of q] 2(5) that
      unfolding 2(4) sealedAt_setChild_branch [OF ty w(1) 2(2)] by blast
    have away: "\<not> prefix (p @ [of_nat idx]) q" if "q \<in> set (wp evs1)" for q
    proof
      assume a: "prefix (p @ [of_nat idx]) q"
      show False
      proof (cases "idx < 256")
        case True
        from sibling_paths [OF a _ True, of i] 2(1,2,5) that show False by auto
      next
        case False
        with he w(1) show False
          using 2(4) hashElder_fresh [OF wf ty he] that
          by (auto simp: hashElder_def split: if_splits)
      qed
    qed
    from wfN_setChild [OF wf 2(7), of i] mono evs away 2(1,2,4) ty w(1) show ?thesis
      by (auto simp: grows_def setChild_def)
  qed
qed

lemma insert_fresh:
  assumes "wfN st" "insert_st t st k v p = (e, st', evs)"
  shows "fresh st p evs \<and> (e = None \<longrightarrow> grows st st' p evs)"
  using assms
proof (induction st arbitrary: k p e st' evs rule: measure_induct_rule [of size])
  case (less st)
  note wf = less.prems(1) and ins = less.prems(2)
  note w = wfN_D [OF wf]
  obtain ty K vl cs where stc: "st = StNode ty K vl cs" by (cases st)
  show ?case
  proof (cases "typ' st")
    case emptyNode
    with ins have "e = None \<and> st' = StNode leafNode k v (children st) \<and> evs = []"
      by (subst (asm) insert_st.simps) auto
    then have r: "e = None" "st' = StNode leafNode k v (children st)" "evs = []"
      by simp_all
    have "wfN st'" unfolding r using w by (intro wfN_StNode) auto
    with r not_sealed_empty [OF emptyNode] show ?thesis by (simp add: grows_def)
  next
    case hashedNode
    with ins have "e \<noteq> None \<and> evs = []"
      by (subst (asm) insert_st.simps) auto
    then show ?thesis by auto
  next
    case leafNode
    show ?thesis
    proof (cases "getDiffIndex st k")
      case None
      with ins leafNode have "e \<noteq> None \<and> evs = []"
        by (subst (asm) insert_st.simps) auto
      then show ?thesis by auto
    next
      case (Some d)
      show ?thesis
      proof (cases "length (key st) \<le> d")
        case True
        with ins leafNode Some have "e \<noteq> None \<and> evs = []"
          by (subst (asm) insert_st.simps) auto
        then show ?thesis by auto
      next
        case False
        with ins leafNode Some have sp: "splitLeaf t st d k v p = (e, st', evs)"
          by (subst (asm) insert_st.simps) auto
        from diffIndex_Some [OF Some [unfolded getDiffIndex_def]] False
        have "d < length (key st)" "key st ! d \<noteq> k ! d" by auto
        from splitLeaf_fresh [OF wf leafNode this sp] show ?thesis .
      qed
    qed
  next
    case extNode
    show ?thesis
    proof (cases "getDiffIndex st k")
      case None
      with ins extNode have "e \<noteq> None \<and> evs = []"
        by (subst (asm) insert_st.simps) auto
      then show ?thesis by auto
    next
      case (Some d)
      note di = diffIndex_Some [OF Some [unfolded getDiffIndex_def]]
      show ?thesis
      proof (cases "d = length (key st)")
        case False
        with ins extNode Some have sp: "splitExt t st d k v p = (e, st', evs)"
          by (subst (asm) insert_st.simps) auto
        from di False have "d < length (key st)" "key st ! d \<noteq> k ! d" by auto
        from splitExt_fresh [OF wf extNode this sp] show ?thesis .
      next
        case True
        from w(1) obtain c0 cs1 where cs: "children st = c0 # cs1" by (cases "children st") auto
        show ?thesis
        proof (cases c0)
          case None
          with ins extNode Some True cs have "e \<noteq> None \<and> evs = []"
            by (subst (asm) insert_st.simps) auto
          then show ?thesis by auto
        next
          case (Some c)
          from di True have tk: "take d k = key st" by simp
          from di True have tk': "take (length (key st)) k = key st" by simp
          from ins extNode \<open>getDiffIndex st k = Some d\<close> True cs Some
          have "\<exists>c'. insert_st t c (drop d k) v (p @ key st) = (e, c', evs)
                  \<and> st' = setChild st 0 (Some c')"
            by (subst (asm) insert_st.simps) (auto simp: tk tk' split: prod.splits)
          then obtain c' where
            r: "insert_st t c (drop d k) v (p @ key st) = (e, c', evs)"
            and st': "st' = setChild st 0 (Some c')"
            by blast
          have sz: "size c < size st" using cs Some by (intro size_hd_child) simp
          have wc: "wfN c" using w(3) [of c] cs Some by simp
          note IH = less.IH [OF sz wc r]
          have sc: "sealedAt st p q = sealedAt c (p @ key st) q" for q
            using sealedAt_ext [OF extNode, of c cs1 p q] cs Some by simp
          have sc': "sealedAt st' p q = sealedAt c' (p @ key st) q" for q
            using sealedAt_ext [of st' c' cs1 p q] extNode cs
            by (simp add: st' setChild_def)
          from IH have fr: "fresh st p evs"
            by (auto simp: fresh_def sc dest: append_prefixD)
          have "grows st st' p evs" if "e = None"
            using IH that wfN_setChild [OF wf, of c' 0, folded st']
            by (auto simp: grows_def sc sc')
          with fr show ?thesis by blast
        qed
      qed
    qed
  next
    case branchNode
    show ?thesis
    proof (cases k)
      case Nil
      with ins branchNode have "e \<noteq> None \<and> evs = []"
        by (subst (asm) insert_st.simps) auto
      then show ?thesis by auto
    next
      case (Cons k0 kr)
      obtain e1 st1 evs1 where he: "hashElder t st (unat k0) p = (e1, st1, evs1)"
        by (cases "hashElder t st (unat k0) p") auto
      note H = hashElder_fresh [OF wf branchNode he]
      show ?thesis
      proof (cases e1)
        case (Some x)
        with ins branchNode Cons he have "e \<noteq> None \<and> evs = evs1"
          by (subst (asm) insert_st.simps) auto
        with H show ?thesis by auto
      next
        case None
        note G = elder_grows [OF wf branchNode he [unfolded None]]
        show ?thesis
        proof (cases "unat k0 < 16")
          case False
          with ins branchNode Cons he None w(1) have "e \<noteq> None \<and> evs = evs1"
            by (subst (asm) insert_st.simps) auto
          with H show ?thesis by auto
        next
          case True
          have w1: "wfN st1" "length (children st1) = 16" "typ' st1 = branchNode"
            using G wfN_D(1) [of st1] by (auto simp: grows_def)
          note ss = sealedAt_setChild_branch [OF w1(3,2) True]
          show ?thesis
          proof (cases "children st ! unat k0")
            case None
            with ins branchNode Cons he \<open>e1 = None\<close> True w(1)
            have "e = None \<and> st' = setChild st1 (unat k0) (Some (newLeaf kr v)) \<and> evs = evs1"
              by (subst (asm) insert_st.simps) auto
            then have r: "e = None" "st' = setChild st1 (unat k0) (Some (newLeaf kr v))" "evs = evs1"
              by simp_all
            have keep: "sealedAt st' p q" if "sealedAt st1 p q" for q
            proof -
              from that obtain j c2 where j: "j < 16" "children st1 ! j = Some c2"
                "sealedAt c2 (p @ [of_nat j]) q"
                using w1 by (auto simp: sealedAt_branch)
              with G None have "j \<noteq> unat k0" by auto
              with j show ?thesis unfolding r ss by blast
            qed
            from G keep wfN_setChild [OF w1(1) wfN_newLeaf, of "unat k0" kr v]
            have "grows st st' p evs" by (auto simp: grows_def r)
            with H r show ?thesis by simp
          next
            case (Some c2)
            with ins branchNode Cons he \<open>e1 = None\<close> True w(1)
            have "\<exists>c2' evs2. insert_st t c2 kr v (p @ [k0]) = (e, c2', evs2)
                    \<and> st' = setChild st1 (unat k0) (Some c2') \<and> evs = evs1 @ evs2"
              by (subst (asm) insert_st.simps) (auto split: prod.splits)
            then obtain c2' evs2 where
              rec: "insert_st t c2 kr v (p @ [k0]) = (e, c2', evs2)"
              and r: "st' = setChild st1 (unat k0) (Some c2')" "evs = evs1 @ evs2"
              by blast
            have sz: "size c2 < size st"
              using size_nth_child [of "unat k0" st c2] Some True w(1) by simp
            have "Some c2 \<in> set (children st)" using Some True w(1) by (metis nth_mem)
            then have wc: "wfN c2" by (rule w(3))
            note IH = less.IH [OF sz wc rec]
            have f2: "fresh st p evs2"
              using fresh_branch_child [OF branchNode w(1) True Some, of p evs2] IH by simp
            have under2: "prefix (p @ [of_nat (unat k0)]) q" if "q \<in> set (wp evs2)" for q
              using IH that by (simp add: fresh_def)
            have "set (wp evs1) \<inter> set (wp evs2) = {}"
              using G under2 by auto
            with H f2 have fr: "fresh st p evs"
              unfolding r by (intro fresh_append) auto
            have "grows st st' p evs" if en: "e = None"
            proof -
              from IH en have g2: "grows c2 c2' (p @ [k0]) evs2" by simp
              have keep: "sealedAt st' p q" if "sealedAt st1 p q" for q
              proof -
                from that obtain j c3 where j: "j < 16" "children st1 ! j = Some c3"
                  "sealedAt c3 (p @ [of_nat j]) q"
                  using w1 by (auto simp: sealedAt_branch)
                show ?thesis
                proof (cases "j = unat k0")
                  case True
                  with j G Some have "c3 = c2" by simp
                  with j True g2 have "sealedAt c2' (p @ [of_nat (unat k0)]) q"
                    by (simp add: grows_def)
                  then show ?thesis unfolding r ss by blast
                next
                  case False
                  with j show ?thesis unfolding r ss by blast
                qed
              qed
              have new: "sealedAt st' p q" if "q \<in> set (wp evs2)" for q
                using g2 that unfolding r ss by (auto simp: grows_def)
              from G g2 keep new wfN_setChild [OF w1(1), of c2' "unat k0"] show ?thesis
                by (auto simp: grows_def r)
            qed
            with fr show ?thesis by blast
          qed
        qed
      qed
    qed
  qed
qed

lemma perform_fresh:
  assumes wf: "wfN (root t)" and pf: "perform t op = (e, t', evs)"
  shows "fresh (root t) [] evs \<and> (e = None \<longrightarrow> grows (root t) (root t') [] evs)"
proof -
  have hashing: ?thesis if hs: "Hash t = (e, t', d, evs)" for d
  proof -
    obtain n where hn: "hash t (root t) [] = (e, n, evs)" and t': "t' = t\<lparr>root := n\<rparr>"
      using hs by (auto simp: Hash_def split: prod.splits option.splits)
    note F = hash_fresh [OF wf hn]
    have "grows (root t) (root t') [] evs" if "e = None"
    proof -
      from hn that have "typ' n = hashedNode" by (auto dest: hash_hashed)
      then have "sealedAt n [] q" for q by (simp add: sealedAt_hashed)
      with F that show ?thesis by (simp add: grows_def t')
    qed
    with F show ?thesis by blast
  qed
  show ?thesis
  proof (cases op)
    case (DoUpdate key' v)
    show ?thesis
    proof (cases "v = []")
      case True
      with pf DoUpdate show ?thesis
        by (auto simp: perform_def Update_def TryUpdate_def Let_def)
    next
      case False
      define t2 where "t2 = (if first t = None then t\<lparr>first := Some (hexKey key')\<rparr> else t)
          \<lparr>last' := Some (hexKey key')\<rparr>"
      have "\<exists>r. insert_st t2 (root t) (hexKey key') v [] = (e, r, evs) \<and> root t' = r"
        using pf DoUpdate False
        by (auto simp: perform_def Update_TryUpdate TryUpdate_def Let_def hexKey_def t2_def
            split: prod.splits if_splits)
      then obtain r where ins: "insert_st t2 (root t) (hexKey key') v [] = (e, r, evs)"
        and r: "root t' = r" by blast
      from insert_fresh [OF wf ins] show ?thesis by (simp add: r)
    qed
  next
    case DoHash
    with pf obtain d where "Hash t = (e, t', d, evs)"
      by (auto simp: perform_def split: prod.splits)
    then show ?thesis by (rule hashing)
  next
    case DoCommit
    with pf obtain d where "Hash t = (e, t', d, evs)"
      by (auto simp: perform_def Commit_def split: prod.splits)
    then show ?thesis by (rule hashing)
  qed
qed

lemma run_distinct:
  assumes "wfN (root t)" "distinct (wp evs0)" "\<forall>q\<in>set (wp evs0). sealedAt (root t) [] q"
    and "run t ops = (e, t', evs)"
  shows "distinct (wp (evs0 @ evs))"
  using assms
proof (induction ops arbitrary: t evs0 e t' evs)
  case Nil
  then show ?case by simp
next
  case (Cons op ops)
  obtain e1 t1 evs1 where pf: "perform t op = (e1, t1, evs1)"
    by (cases "perform t op") auto
  note F = perform_fresh [OF Cons.prems(1) pf]
  from F Cons.prems(2,3) have d1: "distinct (wp (evs0 @ evs1))"
    by (auto simp: fresh_def)
  show ?case
  proof (cases e1)
    case (Some x)
    with Cons.prems(4) pf have "evs = evs1" by simp
    with d1 show ?thesis by simp
  next
    case None
    with Cons.prems(4) pf obtain evs2 where r: "run t1 ops = (e, t', evs2)" "evs = evs1 @ evs2"
      by (auto split: prod.splits)
    from F None have g: "grows (root t) (root t1) [] evs1" by simp
    then have w1: "wfN (root t1)" by (simp add: grows_def)
    have s1: "\<forall>q\<in>set (wp (evs0 @ evs1)). sealedAt (root t1) [] q"
      using g Cons.prems(3) by (auto simp: grows_def)
    from Cons.IH [OF w1 d1 s1 r(1)] show ?thesis by (simp add: r)
  qed
qed

lemma wfN_poolGet: "wfN poolGet"
  by (rule wfN.intros) (auto simp: poolGet_def)

lemma distinct_fst: "distinct (map fst xs) \<Longrightarrow> distinct xs"
  by (simp add: distinct_map)

text \<open>C8. In one lifetime of a trie, which starts at its construction or at a
  \<^verbatim>\<open>Reset\<close>, the writer is given each pair of a path and a hash at most once, over all
  calls of \<^verbatim>\<open>Update\<close>, \<^verbatim>\<open>Hash\<close> and \<^verbatim>\<open>Commit\<close>, whether the lifetime ends with a panic or
  not; it is even given each path at most once.\<close>
theorem writer_once:
  "distinct (writesOf (snd (snd (run (NewStackTrie hs opts) ops))))
   \<and> distinct (map fst (writesOf (snd (snd (run (NewStackTrie hs opts) ops)))))
   \<and> distinct (writesOf (snd (snd (run (Reset t0) ops))))
   \<and> distinct (map fst (writesOf (snd (snd (run (Reset t0) ops)))))"
proof -
  have "distinct (wp (snd (snd (run t ops))))" if "root t = poolGet" for t
  proof -
    obtain e t' evs where r: "run t ops = (e, t', evs)" by (cases "run t ops") auto
    have "distinct (wp ([] @ evs))"
      by (rule run_distinct [OF _ _ _ r]) (simp_all add: that wfN_poolGet)
    then show ?thesis by (simp add: r)
  qed
  then have "distinct (map fst (writesOf (snd (snd (run t ops)))))" if "root t = poolGet" for t
    using that by (simp add: wp_def)
  from this [of "NewStackTrie hs opts"] this [of "Reset t0"] show ?thesis
    by (simp add: NewStackTrie_def Reset_def distinct_fst)
qed

theorem writer_once_witness:
  "map fst (writesOf (snd (snd (run (NewStackTrie paddingHasher (Some sinkOptions))
       [DoUpdate [0x10] (replicate 32 7), DoUpdate [0x20] (replicate 32 8), DoHash,
        DoUpdate [0x30] [1], DoCommit]))))
     = [[1], [2], []]
   \<and> fst (run (NewStackTrie paddingHasher (Some sinkOptions))
       [DoUpdate [0x10] (replicate 32 7), DoUpdate [0x20] (replicate 32 8), DoHash,
        DoUpdate [0x30] [1], DoCommit]) = Some InsertIntoHash
   \<and> distinct (writesOf (snd (snd (run (NewStackTrie paddingHasher (Some sinkOptions))
       [DoUpdate [0x10] (replicate 32 7), DoUpdate [0x20] (replicate 32 8), DoHash,
        DoUpdate [0x30] [1], DoCommit]))))"
proof -
  let ?r = "run (NewStackTrie paddingHasher (Some sinkOptions))
       [DoUpdate [0x10] (replicate 32 7), DoUpdate [0x20] (replicate 32 8), DoHash,
        DoUpdate [0x30] [1], DoCommit]"
  have a: "map fst (writesOf (snd (snd ?r))) = [[1], [2], []]" by code_simp
  have b: "fst ?r = Some InsertIntoHash" by code_simp
  from writer_once [of paddingHasher "Some sinkOptions"
      "[DoUpdate [0x10] (replicate 32 7), DoUpdate [0x20] (replicate 32 8), DoHash,
        DoUpdate [0x30] [1], DoCommit]"] a b
  show ?thesis by blast
qed

end
